theory Spec2Isabelle
  imports Main
begin

section \<open>The intermediate representation\<close>

text \<open>
  Functions are identified by their symbol name.  A value that can stand in the callee
  position of a call is a function, \<open>undef\<close>, an inline-asm expression, the null pointer
  constant, a pointer cast of another value, or anything else (an SSA register, an
  argument, a load result).
\<close>

type_synonym fname = string

datatype val =
    VFunction fname
  | VUndef
  | VInlineAsm string
  | VNull
  | VCast val
  | VOther string

fun stripPointerCasts :: "val \<Rightarrow> val" where
  "stripPointerCasts (VCast v) = stripPointerCasts v"
| "stripPointerCasts v = v"

fun dyn_cast_Function :: "val \<Rightarrow> fname option" where
  "dyn_cast_Function (VFunction f) = Some f"
| "dyn_cast_Function _ = None"

fun isa_UndefValue :: "val \<Rightarrow> bool" where
  "isa_UndefValue VUndef = True"
| "isa_UndefValue _ = False"

fun isa_InlineAsm :: "val \<Rightarrow> bool" where
  "isa_InlineAsm (VInlineAsm a) = True"
| "isa_InlineAsm _ = False"

fun isa_ConstantPointerNull :: "val \<Rightarrow> bool" where
  "isa_ConstantPointerNull VNull = True"
| "isa_ConstantPointerNull _ = False"

datatype opcode = CallInst val | InvokeInst val | OtherInst

fun calledOperand :: "opcode \<Rightarrow> val option" where
  "calledOperand (CallInst v) = Some v"
| "calledOperand (InvokeInst v) = Some v"
| "calledOperand OtherInst = None"

text \<open>
  An instruction carries its address (the identity by which call sites are compared and
  ordered), its name, and its printed text.
\<close>

record instruction =
  iaddr :: nat
  iname :: string
  itext :: string
  iop :: opcode

record func =
  fn_name :: fname
  isDeclaration :: bool
  hasInternalLinkage :: bool
  fn_args :: "(string \<times> bool) list"
  fn_blocks :: "instruction list list"

type_synonym ir_module = "func list"

record callsite =
  cs_caller :: fname
  cs_inst :: instruction
  cs_called :: val

definition cs_addr :: "callsite \<Rightarrow> nat" where
  "cs_addr cs = iaddr (cs_inst cs)"

definition getCalledFunction :: "callsite \<Rightarrow> fname option" where
  "getCalledFunction cs = dyn_cast_Function (cs_called cs)"

section \<open>DS-nodes\<close>

text \<open>
  Modelled from the spec: the DS-node (the DSNode class is not among the sources), with
  its size, type record (offset and type, a type being a name and a size in bytes), flags,
  edge map, global list and forwarding handle.
\<close>

datatype flag =
    Incomplete | External | AllocaBit | HeapBit | GlobalBit | UnknownBit
  | Int2Ptr | Ptr2Int | Folded | Modified | Read | Array

type_synonym handle = "nat \<times> int"

type_synonym ir_type = "string \<times> nat"

record dsnode =
  n_size :: nat
  n_types :: "(int \<times> ir_type) list"
  n_flags :: "flag set"
  n_edges :: "(int \<times> handle) list"
  n_globals :: "string list"
  n_forward :: "handle option"

definition isIncompleteNode :: "dsnode \<Rightarrow> bool" where
  "isIncompleteNode N = (Incomplete \<in> n_flags N)"

definition isExternalNode :: "dsnode \<Rightarrow> bool" where
  "isExternalNode N = (External \<in> n_flags N)"

section \<open>The call-target finder\<close>

text \<open>
  What the finder reads from the analysis it is instantiated with: the call graph's
  callees of a site, the members of the SCC led by a function, the SCC leader of a
  function, the globals graph's scalar map (leader of a global, presence of a key), and
  the node of a value in the graph of a function.
\<close>

record dsa_results =
  cg_callees :: "callsite \<Rightarrow> fname list"
  cg_scc :: "fname \<Rightarrow> fname list"
  cg_sccLeader :: "fname \<Rightarrow> fname"
  sm_leader :: "fname \<Rightarrow> fname"
  sm_has :: "fname \<Rightarrow> bool"
  node_of :: "fname \<Rightarrow> val \<Rightarrow> dsnode option"

text \<open>
  \<open>IndMap\<close> is an ordered map keyed by call site; call sites compare by instruction
  address.  It is kept as an association list in ascending key order.  \<open>indexUpd\<close> is
  \<open>IndMap[cs]\<close> followed by an update of the mapped vector: it default-inserts the empty
  vector when the key is absent.
\<close>

type_synonym IndMapTy = "(callsite \<times> fname list) list"

fun indexUpd :: "callsite \<Rightarrow> (fname list \<Rightarrow> fname list) \<Rightarrow> IndMapTy \<Rightarrow> IndMapTy" where
  "indexUpd cs u [] = [(cs, u [])]"
| "indexUpd cs u ((k, v) # m) =
     (if cs_addr cs = cs_addr k then (k, u v) # m
      else if cs_addr cs < cs_addr k then (cs, u []) # (k, v) # m
      else (k, v) # indexUpd cs u m)"

fun lookupInd :: "callsite \<Rightarrow> IndMapTy \<Rightarrow> fname list option" where
  "lookupInd cs [] = None"
| "lookupInd cs ((k, v) # m) = (if cs_addr cs = cs_addr k then Some v else lookupInd cs m)"

record ctf_state =
  AllSites :: "callsite list"
  IndMap :: IndMapTy
  CompleteSites :: "nat set"
  DirCall :: nat
  IndCall :: nat
  CompleteInd :: nat
  CompleteEmpty :: nat

definition ctf_init :: ctf_state where
  "ctf_init = \<lparr>AllSites = [], IndMap = [], CompleteSites = {}, DirCall = 0, IndCall = 0,
     CompleteInd = 0, CompleteEmpty = 0\<rparr>"

datatype ctf_error = NoDSNode

definition candidates :: "ctf_state \<Rightarrow> callsite \<Rightarrow> fname list" where
  "candidates st cs = (case lookupInd cs (IndMap st) of None \<Rightarrow> [] | Some v \<Rightarrow> v)"

text \<open>Modelled from the spec: \<open>isComplete\<close> of the finder's interface (its header is
  not among the sources) is membership in \<open>CompleteSites\<close>.\<close>

definition isComplete :: "ctf_state \<Rightarrow> callsite \<Rightarrow> bool" where
  "isComplete st cs = (cs_addr cs \<in> CompleteSites st)"

definition push_back :: "callsite \<Rightarrow> fname \<Rightarrow> ctf_state \<Rightarrow> ctf_state" where
  "push_back cs f st = st\<lparr>IndMap := indexUpd cs (\<lambda>v. v @ [f]) (IndMap st)\<rparr>"

text \<open>The inner loop over the members of one SCC, keeping those whose leader is a key
  of the globals graph's scalar map.\<close>

definition sccCandidates :: "dsa_results \<Rightarrow> fname \<Rightarrow> fname list" where
  "sccCandidates T F = filter (\<lambda>x. sm_has T (sm_leader T x)) (cg_scc T F)"

definition pushSCC :: "dsa_results \<Rightarrow> callsite \<Rightarrow> fname \<Rightarrow> ctf_state \<Rightarrow> ctf_state" where
  "pushSCC T cs F st = fold (push_back cs) (sccCandidates T F) st"

definition nodeIsComplete :: "dsnode \<Rightarrow> bool" where
  "nodeIsComplete N = (\<not> isIncompleteNode N \<and> \<not> isExternalNode N)"

text \<open>Evaluating \<open>IndMap[cs].size()\<close> in a condition creates the entry.\<close>

definition touch :: "callsite \<Rightarrow> ctf_state \<Rightarrow> ctf_state" where
  "touch cs st = st\<lparr>IndMap := indexUpd cs (\<lambda>v. v) (IndMap st)\<rparr>"

definition visitIndirect :: "dsa_results \<Rightarrow> callsite \<Rightarrow> ctf_state \<Rightarrow> ctf_error + ctf_state" where
  "visitIndirect T cs st =
     (let st2 = st\<lparr>IndCall := IndCall st + 1\<rparr>;
          st3 = fold (pushSCC T cs) (cg_callees T cs) st2;
          F1 = cg_sccLeader T (cs_caller cs);
          st4 = pushSCC T cs F1 st3
      in case node_of T (cs_caller cs) (cs_called cs) of
           None \<Rightarrow> Inl NoDSNode
         | Some N \<Rightarrow>
            (let st5 = (if nodeIsComplete N then touch cs st4 else st4);
                 st6 = (if nodeIsComplete N \<and> length (candidates st5 cs) \<noteq> 0
                        then st5\<lparr>CompleteSites := insert (cs_addr cs) (CompleteSites st5),
                                 CompleteInd := CompleteInd st5 + 1\<rparr>
                        else st5);
                 st7 = (if nodeIsComplete N \<and> \<not> (length (candidates st6 cs) \<noteq> 0)
                        then st6\<lparr>CompleteEmpty := CompleteEmpty st6 + 1\<rparr>
                        else st6)
             in Inr st7))"

definition visitCallSite :: "dsa_results \<Rightarrow> callsite \<Rightarrow> ctf_state \<Rightarrow> ctf_error + ctf_state" where
  "visitCallSite T cs st0 =
     (let st = st0\<lparr>AllSites := AllSites st0 @ [cs]\<rparr>;
          CF = getCalledFunction cs
      in if isa_UndefValue (cs_called cs) then Inr st
         else if isa_InlineAsm (cs_called cs) then Inr st
         else
           (let CF' = (case CF of None \<Rightarrow> dyn_cast_Function (stripPointerCasts (cs_called cs))
                       | Some f \<Rightarrow> Some f)
            in case CF' of
                 None \<Rightarrow>
                   (let calledValue = stripPointerCasts (cs_called cs)
                    in if isa_ConstantPointerNull calledValue
                       then Inr (st\<lparr>CompleteSites := insert (cs_addr cs) (CompleteSites st),
                                    DirCall := DirCall st + 1\<rparr>)
                       else visitIndirect T cs st)
               | Some f \<Rightarrow>
                   (let st1 = st\<lparr>DirCall := DirCall st + 1\<rparr>;
                        st2 = push_back cs f st1
                    in Inr (st2\<lparr>CompleteSites := insert (cs_addr cs) (CompleteSites st2)\<rparr>))))"

fun foldE :: "('a \<Rightarrow> 's \<Rightarrow> 'e + 's) \<Rightarrow> 'a list \<Rightarrow> 's \<Rightarrow> 'e + 's" where
  "foldE f [] s = Inr s"
| "foldE f (x # xs) s = (case f x s of Inl e \<Rightarrow> Inl e | Inr s' \<Rightarrow> foldE f xs s')"

definition visitInst :: "dsa_results \<Rightarrow> func \<Rightarrow> instruction \<Rightarrow> ctf_state \<Rightarrow> ctf_error + ctf_state" where
  "visitInst T I B st =
     (case calledOperand (iop B) of
        None \<Rightarrow> Inr st
      | Some v \<Rightarrow> visitCallSite T \<lparr>cs_caller = fn_name I, cs_inst = B, cs_called = v\<rparr> st)"

definition findIndTargets :: "dsa_results \<Rightarrow> ir_module \<Rightarrow> ctf_state \<Rightarrow> ctf_error + ctf_state" where
  "findIndTargets T M st =
     foldE (\<lambda>I st. if \<not> isDeclaration I
                   then foldE (\<lambda>F st. foldE (visitInst T I) F st) (fn_blocks I) st
                   else Inr st) M st"

text \<open>\<open>runOnModule\<close> of the finder: run \<open>findIndTargets\<close>, report "module not modified".\<close>

definition CTF_runOnModule :: "dsa_results \<Rightarrow> ir_module \<Rightarrow> ctf_state \<Rightarrow> ctf_error + (bool \<times> ctf_state)" where
  "CTF_runOnModule T M st =
     (case findIndTargets T M st of Inl e \<Rightarrow> Inl e | Inr st' \<Rightarrow> Inr (False, st'))"

subsection \<open>The textual report\<close>

definition hexdigit :: "nat \<Rightarrow> char" where
  "hexdigit d = (''0123456789abcdef'') ! d"

function write_hex :: "nat \<Rightarrow> string" where
  "write_hex n = (if n < 16 then [hexdigit n] else write_hex (n div 16) @ [hexdigit (n mod 16)])"
  by pat_completeness auto
termination
  by (relation "measure id") auto

definition show_ptr :: "nat \<Rightarrow> string" where
  "show_ptr p = ''0x'' @ write_hex p"

definition printNames :: "fname list \<Rightarrow> string" where
  "printNames fs = concat (map (\<lambda>f. '' '' @ f) fs)"

definition printEntry :: "ctf_state \<Rightarrow> callsite \<times> fname list \<Rightarrow> string" where
  "printEntry st e =
     (let cs = fst e in
      if getCalledFunction cs \<noteq> None then []
      else if dyn_cast_Function (stripPointerCasts (cs_called cs)) \<noteq> None then []
      else
        (if \<not> isComplete st cs
         then ''* '' @ show_ptr (cs_addr cs) @ '' '' @ cs_caller cs @ '' ''
                @ iname (cs_inst cs) @ '' ''
         else [])
        @ itext (cs_inst cs) @ '':''
        @ printNames (snd e)
        @ [CHR 0x0A])"

definition print :: "ctf_state \<Rightarrow> string" where
  "print st = ''[* = incomplete] CS: func list'' @ [CHR 0x0A] @ concat (map (printEntry st) (IndMap st))"

subsection \<open>Vocabulary for the finder's properties\<close>

definition callSitesOf :: "func \<Rightarrow> callsite list" where
  "callSitesOf I =
     concat (map (\<lambda>B. case calledOperand (iop B) of
                         None \<Rightarrow> []
                       | Some v \<Rightarrow> [\<lparr>cs_caller = fn_name I, cs_inst = B, cs_called = v\<rparr>])
                 (concat (fn_blocks I)))"

definition moduleCallSites :: "ir_module \<Rightarrow> callsite list" where
  "moduleCallSites M = concat (map callSitesOf (filter (\<lambda>I. \<not> isDeclaration I) M))"

definition indKeys :: "IndMapTy \<Rightarrow> nat list" where
  "indKeys m = map (\<lambda>e. cs_addr (fst e)) m"

definition wfInd :: "IndMapTy \<Rightarrow> bool" where
  "wfInd m = sorted_wrt (<) (indKeys m)"

definition wfState :: "ctf_state \<Rightarrow> bool" where
  "wfState st = wfInd (IndMap st)"

definition isIndirectSite :: "callsite \<Rightarrow> bool" where
  "isIndirectSite cs =
     (\<not> isa_UndefValue (cs_called cs) \<and> \<not> isa_InlineAsm (cs_called cs)
      \<and> dyn_cast_Function (stripPointerCasts (cs_called cs)) = None
      \<and> \<not> isa_ConstantPointerNull (stripPointerCasts (cs_called cs)))"

definition indTargets :: "dsa_results \<Rightarrow> callsite \<Rightarrow> fname list" where
  "indTargets T cs =
     concat (map (sccCandidates T) (cg_callees T cs))
     @ sccCandidates T (cg_sccLeader T (cs_caller cs))"

text \<open>The state in which the completeness test of an indirect site is made.\<close>

definition indPushed :: "dsa_results \<Rightarrow> callsite \<Rightarrow> ctf_state \<Rightarrow> ctf_state" where
  "indPushed T cs st =
     pushSCC T cs (cg_sccLeader T (cs_caller cs))
       (fold (pushSCC T cs) (cg_callees T cs) (st\<lparr>IndCall := IndCall st + 1\<rparr>))"

definition calleeNode :: "dsa_results \<Rightarrow> callsite \<Rightarrow> dsnode option" where
  "calleeNode T cs = node_of T (cs_caller cs) (cs_called cs)"

text \<open>What one visit leaves in \<open>IndMap\<close> for a site that had no entry, and whether it
  marks the site complete.\<close>

definition entrySpec :: "dsa_results \<Rightarrow> callsite \<Rightarrow> fname list option" where
  "entrySpec T cs =
     (if isa_UndefValue (cs_called cs) \<or> isa_InlineAsm (cs_called cs) then None
      else case dyn_cast_Function (stripPointerCasts (cs_called cs)) of
             Some f \<Rightarrow> Some [f]
           | None \<Rightarrow>
              if isa_ConstantPointerNull (stripPointerCasts (cs_called cs)) then None
              else (case calleeNode T cs of
                      None \<Rightarrow> None
                    | Some N \<Rightarrow> if nodeIsComplete N \<or> indTargets T cs \<noteq> []
                                then Some (indTargets T cs) else None))"

definition completeEmptySpec :: "dsa_results \<Rightarrow> callsite \<Rightarrow> bool" where
  "completeEmptySpec T cs =
     (isIndirectSite cs \<and>
        (case calleeNode T cs of None \<Rightarrow> False
         | Some N \<Rightarrow> nodeIsComplete N \<and> indTargets T cs = []))"

definition completeIndSpec :: "dsa_results \<Rightarrow> callsite \<Rightarrow> bool" where
  "completeIndSpec T cs =
     (isIndirectSite cs \<and>
        (case calleeNode T cs of None \<Rightarrow> False
         | Some N \<Rightarrow> nodeIsComplete N \<and> indTargets T cs \<noteq> []))"

definition directSpec :: "callsite \<Rightarrow> bool" where
  "directSpec cs =
     (dyn_cast_Function (stripPointerCasts (cs_called cs)) \<noteq> None
      \<or> isa_ConstantPointerNull (stripPointerCasts (cs_called cs)))"

definition completeSpec :: "dsa_results \<Rightarrow> callsite \<Rightarrow> bool" where
  "completeSpec T cs = (directSpec cs \<or> completeIndSpec T cs)"

definition indKeySet :: "ctf_state \<Rightarrow> callsite set" where
  "indKeySet st = fst ` set (IndMap st)"

text \<open>The effect of the visit of one site, as a relation between the two states.\<close>

definition stepSpec :: "dsa_results \<Rightarrow> callsite \<Rightarrow> ctf_state \<Rightarrow> ctf_state \<Rightarrow> bool" where
  "stepSpec T cs st st' =
     (wfState st'
      \<and> lookupInd cs (IndMap st') = entrySpec T cs
      \<and> (\<forall>c. cs_addr c \<noteq> cs_addr cs \<longrightarrow> lookupInd c (IndMap st') = lookupInd c (IndMap st))
      \<and> CompleteSites st' = (if completeSpec T cs then insert (cs_addr cs) (CompleteSites st) else CompleteSites st)
      \<and> DirCall st' = DirCall st + (if directSpec cs then 1 else 0)
      \<and> IndCall st' = IndCall st + (if isIndirectSite cs then 1 else 0)
      \<and> CompleteInd st' = CompleteInd st + (if completeIndSpec T cs then 1 else 0)
      \<and> CompleteEmpty st' = CompleteEmpty st + (if completeEmptySpec T cs then 1 else 0)
      \<and> AllSites st' = AllSites st @ [cs]
      \<and> indKeySet st' \<subseteq> insert cs (indKeySet st)
      \<and> (isIndirectSite cs \<longrightarrow> calleeNode T cs \<noteq> None))"

definition runSpec :: "dsa_results \<Rightarrow> callsite list \<Rightarrow> ctf_state \<Rightarrow> ctf_state \<Rightarrow> bool" where
  "runSpec T sites st st' =
     (wfState st'
      \<and> (\<forall>cs \<in> set sites. lookupInd cs (IndMap st') = entrySpec T cs)
      \<and> (\<forall>c. cs_addr c \<notin> cs_addr ` set sites \<longrightarrow> lookupInd c (IndMap st') = lookupInd c (IndMap st))
      \<and> CompleteSites st' = CompleteSites st \<union> cs_addr ` {cs \<in> set sites. completeSpec T cs}
      \<and> DirCall st' = DirCall st + length (filter directSpec sites)
      \<and> IndCall st' = IndCall st + length (filter isIndirectSite sites)
      \<and> CompleteInd st' = CompleteInd st + length (filter (completeIndSpec T) sites)
      \<and> CompleteEmpty st' = CompleteEmpty st + length (filter (completeEmptySpec T) sites)
      \<and> AllSites st' = AllSites st @ sites
      \<and> indKeySet st' \<subseteq> set sites \<union> indKeySet st
      \<and> (\<forall>cs \<in> set sites. isIndirectSite cs \<longrightarrow> calleeNode T cs \<noteq> None))"

text \<open>The line of the report for an entry of \<open>IndMap\<close> that is printed.\<close>

definition reportLine :: "ctf_state \<Rightarrow> callsite \<times> fname list \<Rightarrow> string" where
  "reportLine st e =
     (if isComplete st (fst e) then []
      else ''* '' @ show_ptr (cs_addr (fst e)) @ '' '' @ cs_caller (fst e) @ '' ''
             @ iname (cs_inst (fst e)) @ '' '')
     @ itext (cs_inst (fst e)) @ '':''
     @ printNames (snd e)
     @ [CHR 0x0A]"

definition reportHeader :: string where
  "reportHeader = ''[* = incomplete] CS: func list'' @ [CHR 0x0A]"

section \<open>The node store\<close>

text \<open>
  Modelled from the spec: the node store, handles and \<open>merge\<close> (the DSNode and
  DSNodeHandle classes are not among the sources).  Nodes live in an arena and are named
  by their index; a handle is a node index and an offset.  A forwarded node carries the
  handle it was merged into.

  \<open>chase\<close> follows the forwarding chain of a handle to the representative, adding up the
  offset recorded at each link.  It has no value when the chain leaves the arena or never
  ends.
\<close>

partial_function (option) chase :: "dsnode list \<Rightarrow> handle \<Rightarrow> handle option" where
  "chase ns h =
     (if fst h < length ns
      then (case n_forward (ns ! fst h) of
              None \<Rightarrow> Some h
            | Some f \<Rightarrow> chase ns (fst f, snd h + snd f))
      else None)"

declare chase.simps [code]

text \<open>
  Modelled from the spec: the offset of a normalized handle is 0 in a folded node, taken
  modulo the size in an array node, and clamped into the node otherwise.  A node of size 0
  has the single offset 0.
\<close>

definition normOffset :: "dsnode \<Rightarrow> int \<Rightarrow> int" where
  "normOffset N off =
     (if Folded \<in> n_flags N then 0
      else if n_size N = 0 then 0
      else if Array \<in> n_flags N then off mod int (n_size N)
      else max 0 (min off (int (n_size N) - 1)))"

definition normalize :: "dsnode list \<Rightarrow> handle \<Rightarrow> handle option" where
  "normalize ns h =
     (case chase ns h of
        None \<Rightarrow> None
      | Some r \<Rightarrow> Some (fst r, normOffset (ns ! fst r) (snd r)))"

text \<open>
  Modelled from the spec: folding sets the size to 0, clears the type record, and collapses
  the edge map into one edge at offset 0; the other edge targets are to be merged with
  it, and are returned as pending merges.
\<close>

definition collapse :: "dsnode list \<Rightarrow> nat \<Rightarrow> dsnode list \<times> (handle \<times> handle) list" where
  "collapse ns n =
     (let N = ns ! n in
      (ns[n := N\<lparr>n_size := 0, n_types := [], n_flags := insert Folded (n_flags N),
                 n_edges := (case n_edges N of [] \<Rightarrow> [] | e # es \<Rightarrow> [(0, snd e)])\<rparr>],
       (case n_edges N of [] \<Rightarrow> [] | e # es \<Rightarrow> map (\<lambda>e'. (snd e, snd e')) es)))"

definition foldNodeCompletely :: "dsnode list \<Rightarrow> nat \<Rightarrow> dsnode list \<times> (handle \<times> handle) list" where
  "foldNodeCompletely ns n =
     (if Folded \<in> n_flags (ns ! n) then (ns, []) else collapse ns n)"

text \<open>Modelled from the spec: two typed fields conflict when their types differ and their
  extents overlap.\<close>

definition overlaps :: "int \<Rightarrow> nat \<Rightarrow> int \<Rightarrow> nat \<Rightarrow> bool" where
  "overlaps a la b lb = (a < b + int lb \<and> b < a + int la)"

definition typeConflict :: "(int \<times> ir_type) list \<Rightarrow> int \<times> ir_type \<Rightarrow> bool" where
  "typeConflict ts e =
     list_ex (\<lambda>e'. snd e' \<noteq> snd e \<and> overlaps (fst e') (snd (snd e')) (fst e) (snd (snd e))) ts"

definition shiftTypes :: "int \<Rightarrow> (int \<times> ir_type) list \<Rightarrow> (int \<times> ir_type) list" where
  "shiftTypes d ts = map (\<lambda>e. (fst e + d, snd e)) ts"

text \<open>
  Modelled from the spec: one edge of the absorbed node.  If the representative has an edge at the shifted
  offset, the two targets are to be merged; otherwise the edge is installed.
\<close>

definition linkEdge ::
  "(int \<Rightarrow> int) \<Rightarrow> int \<times> handle
   \<Rightarrow> (int \<times> handle) list \<times> (handle \<times> handle) list
   \<Rightarrow> (int \<times> handle) list \<times> (handle \<times> handle) list" where
  "linkEdge key e acc =
     (case map_of (fst acc) (key (fst e)) of
        None \<Rightarrow> (fst acc @ [(key (fst e), snd e)], snd acc)
      | Some h' \<Rightarrow> (fst acc, snd acc @ [(h', snd e)]))"

text \<open>
  Modelled from the spec: steps 3 to 9 of \<open>merge\<close> for two distinct representatives,
  given as normalized handles.  The larger node is the representative \<open>r\<close> (the first
  on a tie); \<open>d\<close> is the shift of the other node \<open>s\<close> inside \<open>r\<close>.  The size grows to
  fit when neither is an array; flags and globals are united; the edges of \<open>s\<close> are
  linked in; the types of \<open>s\<close> are installed at the shifted offsets; \<open>s\<close> is forwarded
  to \<open>r\<close> and gives up its edges, types and globals.  The representative is folded when
  a type conflicts, or when one of the two was folded.  The edge merges of step 7 are
  returned as pending merges, to be made once \<open>s\<close> is forwarded.
\<close>

definition unify :: "dsnode list \<Rightarrow> handle \<Rightarrow> handle \<Rightarrow> dsnode list \<times> (handle \<times> handle) list" where
  "unify ns h1 h2 =
     (let hr = (if n_size (ns ! fst h1) < n_size (ns ! fst h2) then h2 else h1);
          hs = (if n_size (ns ! fst h1) < n_size (ns ! fst h2) then h1 else h2);
          r = fst hr; s = fst hs;
          d = snd hr - snd hs;
          R = ns ! r; S = ns ! s;
          conflict = list_ex (typeConflict (n_types R)) (shiftTypes d (n_types S));
          grow = (int (n_size R) < int (n_size S) + d \<and> Array \<notin> n_flags R \<and> Array \<notin> n_flags S);
          R1 = R\<lparr>n_size := (if grow then nat (int (n_size S) + d) else n_size R),
                 n_types := n_types R @ filter (\<lambda>e. e \<notin> set (n_types R)) (shiftTypes d (n_types S)),
                 n_flags := n_flags R \<union> n_flags S,
                 n_globals := n_globals R @ filter (\<lambda>g. g \<notin> set (n_globals R)) (n_globals S)\<rparr>;
          EP = fold (linkEdge (\<lambda>off. normOffset R1 (off + d))) (n_edges S) (n_edges R, []);
          R2 = R1\<lparr>n_edges := fst EP\<rparr>;
          S' = S\<lparr>n_types := [], n_edges := [], n_globals := [], n_forward := Some (r, d)\<rparr>;
          ns1 = ns[r := R2, s := S'];
          FP = (if conflict \<or> Folded \<in> n_flags R2 then collapse ns1 r else (ns1, []))
      in (fst FP, snd EP @ snd FP))"

text \<open>
  Modelled from the spec: \<open>merge\<close>.  The pending merges of one step are worked off,
  in order, before the rest of the list, as the recursion of step 7 would.
\<close>

partial_function (option) mergeLoop ::
  "dsnode list \<Rightarrow> (handle \<times> handle) list \<Rightarrow> dsnode list option" where
  "mergeLoop ns wl =
     (case wl of
        [] \<Rightarrow> Some ns
      | p # rest \<Rightarrow>
          (case normalize ns (fst p) of
             None \<Rightarrow> None
           | Some h1 \<Rightarrow>
              (case normalize ns (snd p) of
                 None \<Rightarrow> None
               | Some h2 \<Rightarrow>
                   if fst h1 = fst h2
                   then (if snd h1 = snd h2 then mergeLoop ns rest
                         else mergeLoop (fst (foldNodeCompletely ns (fst h1)))
                                (snd (foldNodeCompletely ns (fst h1)) @ rest))
                   else mergeLoop (fst (unify ns h1 h2)) (snd (unify ns h1 h2) @ rest))))"

declare mergeLoop.simps [code]

definition merge :: "dsnode list \<Rightarrow> handle \<Rightarrow> handle \<Rightarrow> dsnode list option" where
  "merge ns h1 h2 = mergeLoop ns [(h1, h2)]"

section \<open>DS graphs\<close>

text \<open>
  Modelled from the spec: the DS graph and its call records (the DSGraph and DSCallSite
  classes are not among the sources).  The keys of a scalar map are the local values of
  the functions and the global symbols; a call record holds the call site, the called
  function or the callee handle, and the handles of the return value, the varargs and the
  pointer arguments, where they exist.
\<close>

datatype sval = SLocal fname string | SGlobal string

datatype callee = DirectCallee fname | IndirectCallee handle

record dscallsite =
  dcs_site :: callsite
  dcs_callee :: callee
  dcs_ret :: "handle option"
  dcs_va :: "handle option"
  dcs_args :: "handle list"

record dsgraph =
  g_nodes :: "dsnode list"
  ScalarMap :: "(sval \<times> handle) list"
  ReturnNodes :: "(fname \<times> handle) list"
  VANodes :: "(fname \<times> handle) list"
  FunctionCalls :: "dscallsite list"
  AuxFunctionCalls :: "dscallsite list"

definition emptyGraph :: dsgraph where
  "emptyGraph = \<lparr>g_nodes = [], ScalarMap = [], ReturnNodes = [], VANodes = [],
     FunctionCalls = [], AuxFunctionCalls = []\<rparr>"

fun foldO :: "('a \<Rightarrow> 's \<Rightarrow> 's option) \<Rightarrow> 'a list \<Rightarrow> 's \<Rightarrow> 's option" where
  "foldO f [] s = Some s"
| "foldO f (x # xs) s = (case f x s of None \<Rightarrow> None | Some s' \<Rightarrow> foldO f xs s')"

definition mergeHandles :: "(handle \<times> handle) list \<Rightarrow> dsgraph \<Rightarrow> dsgraph option" where
  "mergeHandles ps G =
     (case foldO (\<lambda>p ns. merge ns (fst p) (snd p)) ps (g_nodes G) of
        None \<Rightarrow> None
      | Some ns \<Rightarrow> Some (G\<lparr>g_nodes := ns\<rparr>))"

text \<open>
  Modelled from the spec: \<open>spliceFrom\<close> moves every node and every entry of the other
  graph into this one.  In the arena the moved nodes get the indices after this graph's
  own, and every handle of the other graph is relocated.  A value bound in both scalar maps
  keeps this graph's entry, and the two handles are merged.
\<close>

definition shiftHandle :: "nat \<Rightarrow> handle \<Rightarrow> handle" where
  "shiftHandle k h = (fst h + k, snd h)"

definition shiftNode :: "nat \<Rightarrow> dsnode \<Rightarrow> dsnode" where
  "shiftNode k N =
     N\<lparr>n_edges := map (\<lambda>e. (fst e, shiftHandle k (snd e))) (n_edges N),
       n_forward := map_option (shiftHandle k) (n_forward N)\<rparr>"

definition shiftCall :: "nat \<Rightarrow> dscallsite \<Rightarrow> dscallsite" where
  "shiftCall k C =
     C\<lparr>dcs_callee := (case dcs_callee C of
                        DirectCallee F \<Rightarrow> DirectCallee F
                      | IndirectCallee h \<Rightarrow> IndirectCallee (shiftHandle k h)),
       dcs_ret := map_option (shiftHandle k) (dcs_ret C),
       dcs_va := map_option (shiftHandle k) (dcs_va C),
       dcs_args := map (shiftHandle k) (dcs_args C)\<rparr>"

definition shiftEntry :: "nat \<Rightarrow> 'k \<times> handle \<Rightarrow> 'k \<times> handle" where
  "shiftEntry k e = (fst e, shiftHandle k (snd e))"

definition spliceFrom :: "dsgraph \<Rightarrow> dsgraph \<Rightarrow> dsgraph option" where
  "spliceFrom G RHS =
     (let k = length (g_nodes G);
          SM = map (shiftEntry k) (ScalarMap RHS);
          G1 = G\<lparr>g_nodes := g_nodes G @ map (shiftNode k) (g_nodes RHS),
                 ScalarMap := ScalarMap G @ filter (\<lambda>e. map_of (ScalarMap G) (fst e) = None) SM,
                 ReturnNodes := ReturnNodes G @ map (shiftEntry k) (ReturnNodes RHS),
                 VANodes := VANodes G @ map (shiftEntry k) (VANodes RHS),
                 FunctionCalls := FunctionCalls G @ map (shiftCall k) (FunctionCalls RHS),
                 AuxFunctionCalls := AuxFunctionCalls G @ map (shiftCall k) (AuxFunctionCalls RHS)\<rparr>
      in mergeHandles
           (concat (map (\<lambda>e. case map_of (ScalarMap G) (fst e) of
                               None \<Rightarrow> []
                             | Some h \<Rightarrow> [(h, snd e)]) SM)) G1)"

text \<open>
  Modelled from the spec: \<open>mergeInGraph\<close> for a callee whose graph is this graph.  The
  callee's return handle is merged with the call site's, the vararg handles likewise, and
  the handles of the callee's pointer parameters are merged with the call site's argument
  handles in order; what is left over on either side is merged into the vararg handle.  A
  merge is made only when both handles exist.
\<close>

definition getFunction :: "ir_module \<Rightarrow> fname \<Rightarrow> func option" where
  "getFunction M F = find (\<lambda>I. fn_name I = F) M"

definition formalHandles :: "dsgraph \<Rightarrow> func \<Rightarrow> handle list" where
  "formalHandles G F =
     concat (map (\<lambda>a. case map_of (ScalarMap G) (SLocal (fn_name F) (fst a)) of
                        None \<Rightarrow> []
                      | Some h \<Rightarrow> [h])
                 (filter snd (fn_args F)))"

definition optPair :: "handle option \<Rightarrow> handle option \<Rightarrow> (handle \<times> handle) list" where
  "optPair a b = (case a of None \<Rightarrow> [] | Some x \<Rightarrow> (case b of None \<Rightarrow> [] | Some y \<Rightarrow> [(x, y)]))"

definition callMerges :: "dsgraph \<Rightarrow> dscallsite \<Rightarrow> func \<Rightarrow> (handle \<times> handle) list" where
  "callMerges G CS F =
     (let ret = map_of (ReturnNodes G) (fn_name F);
          va = map_of (VANodes G) (fn_name F);
          formals = formalHandles G F;
          args = dcs_args CS;
          vah = (case va of None \<Rightarrow> dcs_va CS | Some h \<Rightarrow> Some h)
      in optPair ret (dcs_ret CS)
         @ optPair va (dcs_va CS)
         @ zip formals args
         @ concat (map (\<lambda>h. optPair vah (Some h)) (drop (length formals) args))
         @ concat (map (\<lambda>h. optPair vah (Some h)) (drop (length args) formals)))"

definition mergeInGraph :: "dsgraph \<Rightarrow> dscallsite \<Rightarrow> func \<Rightarrow> dsgraph option" where
  "mergeInGraph G CS F = mergeHandles (callMerges G CS F) G"

section \<open>The Steensgaard driver\<close>

text \<open>
  What the driver reads from its surroundings: the local graph of each function, and the
  compatibility predicate between a call site and a function.
\<close>

record steens_env =
  getDSGraph :: "fname \<Rightarrow> dsgraph"
  functionIsCallable :: "callsite \<Rightarrow> fname \<Rightarrow> bool"

text \<open>A \<open>FuncSet\<close> is kept as a list without repetitions; two are equal when they have
  the same elements.\<close>

definition insertFn :: "fname \<Rightarrow> fname list \<Rightarrow> fname list" where
  "insertFn F S = (if F \<in> set S then S else S @ [F])"

text \<open>A name that is not a function of the module has no body.\<close>

definition isDeclarationOf :: "ir_module \<Rightarrow> fname \<Rightarrow> bool" where
  "isDeclarationOf M F = (case getFunction M F of None \<Rightarrow> True | Some I \<Rightarrow> isDeclaration I)"

text \<open>Modelled from the spec: \<open>addFullFunctionSet\<close> adds the globals of the node that
  are functions of the module.\<close>

definition addFullFunctionSet :: "ir_module \<Rightarrow> dsnode \<Rightarrow> fname list \<Rightarrow> fname list" where
  "addFullFunctionSet M N S =
     fold insertFn (filter (\<lambda>g. getFunction M g \<noteq> None) (n_globals N)) S"

definition getAllCallees ::
  "steens_env \<Rightarrow> ir_module \<Rightarrow> dsgraph \<Rightarrow> dscallsite \<Rightarrow> fname list \<Rightarrow> fname list option" where
  "getAllCallees E M G CS Callees =
     (case dcs_callee CS of
        DirectCallee F \<Rightarrow>
          Some (if \<not> isDeclarationOf M F then insertFn F Callees else Callees)
      | IndirectCallee h \<Rightarrow>
          (case chase (g_nodes G) h of
             None \<Rightarrow> None
           | Some r \<Rightarrow>
               (let TempCallees = addFullFunctionSet M (g_nodes G ! fst r) [];
                    Callable = filter (functionIsCallable E (dcs_site CS)) TempCallees
                in Some (fold insertFn Callable Callees))))"

text \<open>\<open>CallGraph\<close> is keyed by the address of the call-site record, which is its position
  in the graph's list of function calls.\<close>

type_synonym CallGraphTy = "nat \<Rightarrow> fname list option"

definition cgLookup :: "CallGraphTy \<Rightarrow> nat \<Rightarrow> fname list" where
  "cgLookup CG i = (case CG i of None \<Rightarrow> [] | Some S \<Rightarrow> S)"

fun buildCallGraphFrom ::
  "steens_env \<Rightarrow> ir_module \<Rightarrow> dsgraph \<Rightarrow> nat \<Rightarrow> dscallsite list \<Rightarrow> CallGraphTy \<Rightarrow> bool
   \<Rightarrow> (bool \<times> CallGraphTy) option" where
  "buildCallGraphFrom E M G i [] CG changed = Some (changed, CG)"
| "buildCallGraphFrom E M G i (CurCall # Calls) CG changed =
     (case getAllCallees E M G CurCall [] of
        None \<Rightarrow> None
      | Some Callees \<Rightarrow>
          buildCallGraphFrom E M G (Suc i) Calls (CG(i \<mapsto> Callees))
            (changed \<or> \<not> (set (cgLookup CG i) = set Callees)))"

definition buildCallGraph ::
  "steens_env \<Rightarrow> ir_module \<Rightarrow> dsgraph \<Rightarrow> CallGraphTy \<Rightarrow> (bool \<times> CallGraphTy) option" where
  "buildCallGraph E M G CG = buildCallGraphFrom E M G 0 (FunctionCalls G) CG False"

text \<open>The body of the fixpoint loop: every call site, every callee of its set that has a
  body.\<close>

definition mergeCallee :: "ir_module \<Rightarrow> dscallsite \<Rightarrow> fname \<Rightarrow> dsgraph \<Rightarrow> dsgraph option" where
  "mergeCallee M CurCall F G =
     (case getFunction M F of
        None \<Rightarrow> Some G
      | Some I \<Rightarrow> if \<not> isDeclaration I then mergeInGraph G CurCall I else Some G)"

definition mergeCall :: "ir_module \<Rightarrow> CallGraphTy \<Rightarrow> nat \<times> dscallsite \<Rightarrow> dsgraph \<Rightarrow> dsgraph option" where
  "mergeCall M CG c G = foldO (mergeCallee M (snd c)) (cgLookup CG (fst c)) G"

definition mergeCalls :: "ir_module \<Rightarrow> CallGraphTy \<Rightarrow> dsgraph \<Rightarrow> dsgraph option" where
  "mergeCalls M CG G = foldO (mergeCall M CG) (enumerate 0 (FunctionCalls G)) G"

partial_function (option) steensLoop ::
  "steens_env \<Rightarrow> ir_module \<Rightarrow> dsgraph \<times> CallGraphTy \<Rightarrow> (dsgraph \<times> CallGraphTy) option" where
  "steensLoop E M s =
     (case buildCallGraph E M (fst s) (snd s) of
        None \<Rightarrow> None
      | Some b \<Rightarrow>
          if fst b
          then (case mergeCalls M (snd b) (fst s) of
                  None \<Rightarrow> None
                | Some G' \<Rightarrow> steensLoop E M (G', snd b))
          else Some (fst s, snd b))"

declare steensLoop.simps [code]

record steens_state =
  ResultGraph :: "dsgraph option"
  CallGraph :: CallGraphTy

datatype steens_error = ResultGraphAlreadyAllocated

text \<open>
  \<open>runOnModuleInternal\<close>: the local graphs of the functions with a body are spliced into
  a new graph, the fixpoint loop runs, the return nodes of the functions with internal
  linkage are erased, the driver's call graph is cleared, and \<open>false\<close> is returned.  The
  passes over the result that the driver calls before and after the loop (removal of dead
  nodes, the incompleteness, external and int-pointer markers, the cloning of globals, the
  call graph for clients) are not among the sources; they touch markers, unreferenced nodes
  and the globals graph, and are left out.
\<close>

definition spliceAll :: "steens_env \<Rightarrow> ir_module \<Rightarrow> dsgraph \<Rightarrow> dsgraph option" where
  "spliceAll E M G =
     foldO (\<lambda>I G. if \<not> isDeclaration I then spliceFrom G (getDSGraph E (fn_name I)) else Some G) M G"

definition eraseInternalReturns :: "ir_module \<Rightarrow> dsgraph \<Rightarrow> dsgraph" where
  "eraseInternalReturns M G =
     G\<lparr>ReturnNodes := filter (\<lambda>e. case getFunction M (fst e) of
                                     None \<Rightarrow> True
                                   | Some I \<Rightarrow> \<not> hasInternalLinkage I) (ReturnNodes G)\<rparr>"

definition runOnModuleInternal ::
  "steens_env \<Rightarrow> ir_module \<Rightarrow> steens_state \<Rightarrow> (steens_error + bool \<times> steens_state) option" where
  "runOnModuleInternal E M st =
     (if ResultGraph st \<noteq> None then Some (Inl ResultGraphAlreadyAllocated)
      else case spliceAll E M emptyGraph of
             None \<Rightarrow> None
           | Some G \<Rightarrow>
              (case steensLoop E M (G, CallGraph st) of
                 None \<Rightarrow> None
               | Some s \<Rightarrow>
                   Some (Inr (False, \<lparr>ResultGraph = Some (eraseInternalReturns M (fst s)),
                                      CallGraph = Map.empty\<rparr>))))"

text \<open>Modelled from the spec: the test predicate \<open>-check-same-node\<close>.  Two scalars are
  bound, and their handles normalize to the same node.\<close>

definition sameNode :: "dsgraph \<Rightarrow> sval \<Rightarrow> sval \<Rightarrow> bool" where
  "sameNode G a b =
     (case map_of (ScalarMap G) a of
        None \<Rightarrow> False
      | Some ha \<Rightarrow>
         (case map_of (ScalarMap G) b of
            None \<Rightarrow> False
          | Some hb \<Rightarrow>
             (case normalize (g_nodes G) ha of
                None \<Rightarrow> False
              | Some ra \<Rightarrow>
                 (case normalize (g_nodes G) hb of
                    None \<Rightarrow> False
                  | Some rb \<Rightarrow> fst ra = fst rb))))"

text \<open>\<open>runOnModule\<close> of the driver: \<open>init\<close> sets the pass up from the local analysis
  (its code is not among the sources), then \<open>runOnModuleInternal\<close> runs.\<close>

definition Steens_runOnModule ::
  "steens_env \<Rightarrow> ir_module \<Rightarrow> steens_state \<Rightarrow> (steens_error + bool \<times> steens_state) option" where
  "Steens_runOnModule E M st = runOnModuleInternal E M st"

subsection \<open>Vocabulary for the driver's properties\<close>

text \<open>\<open>reaches ns n r\<close>: the forwarding chain of node \<open>n\<close> ends in the representative
  \<open>r\<close>.\<close>

inductive reaches :: "dsnode list \<Rightarrow> nat \<Rightarrow> nat \<Rightarrow> bool" for ns :: "dsnode list" where
  rep: "n < length ns \<Longrightarrow> n_forward (ns ! n) = None \<Longrightarrow> reaches ns n n"
| fwd: "n < length ns \<Longrightarrow> n_forward (ns ! n) = Some f \<Longrightarrow> reaches ns (fst f) r \<Longrightarrow> reaches ns n r"

text \<open>A store is well formed when every forwarding chain ends and every edge points into
  the arena.\<close>

definition wfStore :: "dsnode list \<Rightarrow> bool" where
  "wfStore ns =
     (\<forall>n < length ns. (\<exists>r. reaches ns n r)
                       \<and> (\<forall>e \<in> set (n_edges (ns ! n)). fst (snd e) < length ns))"

definition pairsIn :: "dsnode list \<Rightarrow> (handle \<times> handle) list \<Rightarrow> bool" where
  "pairsIn ns wl = (\<forall>p \<in> set wl. fst (fst p) < length ns \<and> fst (snd p) < length ns)"

definition weight :: "dsnode \<Rightarrow> nat" where
  "weight N = (if n_forward N \<noteq> None then 0 else if Folded \<in> n_flags N then 1 else 2)"

definition mu :: "dsnode list \<Rightarrow> nat" where
  "mu ns = sum_list (map weight ns)"

definition allGlobals :: "dsnode list \<Rightarrow> string set" where
  "allGlobals ns = (\<Union>N \<in> set ns. set (n_globals N))"

text \<open>\<open>grows ns ns'\<close>: the arena is the same, no global is new, and every node's
  representative in \<open>ns'\<close> lists at least the globals its representative in \<open>ns\<close>
  listed.\<close>

definition grows :: "dsnode list \<Rightarrow> dsnode list \<Rightarrow> bool" where
  "grows ns ns' =
     (length ns' = length ns
      \<and> allGlobals ns' \<subseteq> allGlobals ns
      \<and> (\<forall>n r. reaches ns n r \<longrightarrow>
            (\<exists>r'. reaches ns' n r' \<and> set (n_globals (ns ! r)) \<subseteq> set (n_globals (ns' ! r')))))"

definition callHandles :: "dscallsite \<Rightarrow> handle set" where
  "callHandles C =
     (case dcs_callee C of DirectCallee F \<Rightarrow> {} | IndirectCallee h \<Rightarrow> {h})
     \<union> set_option (dcs_ret C) \<union> set_option (dcs_va C) \<union> set (dcs_args C)"

definition graphHandles :: "dsgraph \<Rightarrow> handle set" where
  "graphHandles G =
     snd ` set (ScalarMap G) \<union> snd ` set (ReturnNodes G) \<union> snd ` set (VANodes G)
     \<union> (\<Union>C \<in> set (FunctionCalls G). callHandles C)
     \<union> (\<Union>C \<in> set (AuxFunctionCalls G). callHandles C)"

definition wfGraph :: "dsgraph \<Rightarrow> bool" where
  "wfGraph G = (wfStore (g_nodes G) \<and> (\<forall>h \<in> graphHandles G. fst h < length (g_nodes G)))"

definition tgts :: "(int \<times> handle) list \<Rightarrow> handle set" where
  "tgts E = snd ` set E"

definition pairsFrom :: "handle set \<Rightarrow> (handle \<times> handle) list \<Rightarrow> bool" where
  "pairsFrom T P = (\<forall>p \<in> set P. fst p \<in> T \<and> snd p \<in> T)"

text \<open>The shape of the store after \<open>unify\<close>.\<close>

definition unifyShape ::
  "dsnode list \<Rightarrow> nat \<Rightarrow> nat \<Rightarrow> dsnode list \<Rightarrow> (handle \<times> handle) list \<Rightarrow> bool" where
  "unifyShape ns r s ns' P =
     (length ns' = length ns
      \<and> (\<forall>k < length ns. k \<noteq> r \<longrightarrow> k \<noteq> s \<longrightarrow> ns' ! k = ns ! k)
      \<and> (\<exists>d. n_forward (ns' ! s) = Some (r, d))
      \<and> n_globals (ns' ! s) = [] \<and> n_edges (ns' ! s) = []
      \<and> n_forward (ns' ! r) = n_forward (ns ! r)
      \<and> set (n_globals (ns' ! r)) = set (n_globals (ns ! r)) \<union> set (n_globals (ns ! s))
      \<and> n_flags (ns ! r) \<subseteq> n_flags (ns' ! r)
      \<and> tgts (n_edges (ns' ! r)) \<subseteq> tgts (n_edges (ns ! r)) \<union> tgts (n_edges (ns ! s))
      \<and> pairsFrom (tgts (n_edges (ns ! r)) \<union> tgts (n_edges (ns ! s))) P)"

text \<open>\<open>evolves G G'\<close>: only the node store changed, and it grew.\<close>

definition evolves :: "dsgraph \<Rightarrow> dsgraph \<Rightarrow> bool" where
  "evolves G G' = (G' = G\<lparr>g_nodes := g_nodes G'\<rparr> \<and> grows (g_nodes G) (g_nodes G'))"

text \<open>The callee set of a call record, in the words of the spec: for a direct call the
  called function unless it is a declaration; for an indirect call the functions among the
  globals of the callee node that are callable from the site.\<close>

definition calleeSetOf ::
  "steens_env \<Rightarrow> ir_module \<Rightarrow> dsnode list \<Rightarrow> dscallsite \<Rightarrow> nat \<Rightarrow> fname set" where
  "calleeSetOf E M ns CS r =
     (case dcs_callee CS of
        DirectCallee F \<Rightarrow> {F} - {F. isDeclarationOf M F}
      | IndirectCallee h \<Rightarrow>
          {F \<in> set (n_globals (ns ! r)). getFunction M F \<noteq> None
                                          \<and> functionIsCallable E (dcs_site CS) F})"

text \<open>The node an indirect call record's callee handle normalizes to.\<close>

definition calleeRep :: "dsnode list \<Rightarrow> dscallsite \<Rightarrow> nat \<Rightarrow> bool" where
  "calleeRep ns CS r =
     (case dcs_callee CS of
        DirectCallee F \<Rightarrow> True
      | IndirectCallee h \<Rightarrow> reaches ns (fst h) r)"

text \<open>The callee sets \<open>buildCallGraph\<close> computes on a graph.\<close>

definition cgOf :: "steens_env \<Rightarrow> ir_module \<Rightarrow> dsgraph \<Rightarrow> nat \<Rightarrow> fname list" where
  "cgOf E M G i = (case getAllCallees E M G (FunctionCalls G ! i) [] of None \<Rightarrow> [] | Some X \<Rightarrow> X)"

definition directFns :: "dsgraph \<Rightarrow> fname set" where
  "directFns G = {F. \<exists>C \<in> set (FunctionCalls G). dcs_callee C = DirectCallee F}"

definition fnUniverse :: "dsgraph \<Rightarrow> fname set" where
  "fnUniverse G = allGlobals (g_nodes G) \<union> directFns G"

definition cgSize :: "nat \<Rightarrow> CallGraphTy \<Rightarrow> nat" where
  "cgSize N CG = (\<Sum>j = 0 ..< N. card (set (cgLookup CG j)))"

text \<open>The loop's result: a graph that evolved from the start graph, and a call graph
  that is the one \<open>buildCallGraph\<close> computes on it.\<close>

definition loopResult ::
  "steens_env \<Rightarrow> ir_module \<Rightarrow> dsgraph \<Rightarrow> dsgraph \<times> CallGraphTy \<Rightarrow> bool" where
  "loopResult E M G s =
     (wfGraph (fst s) \<and> evolves G (fst s)
      \<and> (\<forall>j < length (FunctionCalls G). cgLookup (snd s) j = cgOf E M (fst s) j))"

text \<open>The graph \<open>spliceFrom\<close> builds before it merges the scalars bound in both maps.\<close>

definition spliced :: "dsgraph \<Rightarrow> dsgraph \<Rightarrow> dsgraph" where
  "spliced G RHS =
     (let k = length (g_nodes G) in
      G\<lparr>g_nodes := g_nodes G @ map (shiftNode k) (g_nodes RHS),
        ScalarMap := ScalarMap G @ filter (\<lambda>e. map_of (ScalarMap G) (fst e) = None)
                                          (map (shiftEntry k) (ScalarMap RHS)),
        ReturnNodes := ReturnNodes G @ map (shiftEntry k) (ReturnNodes RHS),
        VANodes := VANodes G @ map (shiftEntry k) (VANodes RHS),
        FunctionCalls := FunctionCalls G @ map (shiftCall k) (FunctionCalls RHS),
        AuxFunctionCalls := AuxFunctionCalls G @ map (shiftCall k) (AuxFunctionCalls RHS)\<rparr>)"

definition spliceMerges :: "dsgraph \<Rightarrow> dsgraph \<Rightarrow> (handle \<times> handle) list" where
  "spliceMerges G RHS =
     concat (map (\<lambda>e. case map_of (ScalarMap G) (fst e) of
                         None \<Rightarrow> []
                       | Some h \<Rightarrow> [(h, snd e)])
                 (map (shiftEntry (length (g_nodes G))) (ScalarMap RHS)))"

definition handlesOK :: "nat \<Rightarrow> dsgraph \<Rightarrow> bool" where
  "handlesOK N G =
     ((\<forall>e \<in> set (ScalarMap G). fst (snd e) < N)
      \<and> (\<forall>e \<in> set (ReturnNodes G). fst (snd e) < N)
      \<and> (\<forall>e \<in> set (VANodes G). fst (snd e) < N)
      \<and> (\<forall>C \<in> set (FunctionCalls G). \<forall>h \<in> callHandles C. fst h < N)
      \<and> (\<forall>C \<in> set (AuxFunctionCalls G). \<forall>h \<in> callHandles C. fst h < N))"

subsection \<open>Example modules for the finder\<close>

text \<open>An analysis result with an empty call graph, an empty scalar map and no nodes.\<close>

definition T_none :: dsa_results where
  "T_none = \<lparr>cg_callees = (\<lambda>cs. []), cg_scc = (\<lambda>F. []), cg_sccLeader = (\<lambda>F. F),
     sm_leader = (\<lambda>F. F), sm_has = (\<lambda>F. False), node_of = (\<lambda>F v. None)\<rparr>"

text \<open>A module whose only call site calls \<open>undef\<close>.\<close>

definition i_undef :: instruction where
  "i_undef = \<lparr>iaddr = 16, iname = '''', itext = ''call void undef()'', iop = CallInst VUndef\<rparr>"

definition M_undef :: ir_module where
  "M_undef = [\<lparr>fn_name = ''f'', isDeclaration = False, hasInternalLinkage = False,
     fn_args = [], fn_blocks = [[i_undef]]\<rparr>]"

definition cs_undef :: callsite where
  "cs_undef = \<lparr>cs_caller = ''f'', cs_inst = i_undef, cs_called = VUndef\<rparr>"

text \<open>A module whose only call site is a direct call of \<open>g\<close>.\<close>

definition i_direct :: instruction where
  "i_direct = \<lparr>iaddr = 16, iname = '''', itext = ''call void @g()'',
     iop = CallInst (VFunction ''g'')\<rparr>"

definition M_direct :: ir_module where
  "M_direct = [\<lparr>fn_name = ''f'', isDeclaration = False, hasInternalLinkage = False,
     fn_args = [], fn_blocks = [[i_direct]]\<rparr>,
   \<lparr>fn_name = ''g'', isDeclaration = True, hasInternalLinkage = False,
     fn_args = [], fn_blocks = []\<rparr>]"

definition cs_direct :: callsite where
  "cs_direct = \<lparr>cs_caller = ''f'', cs_inst = i_direct, cs_called = VFunction ''g''\<rparr>"

text \<open>
  A module with one call site of each kind in function \<open>f\<close>: a direct call, a direct
  call through a cast, calls of \<open>undef\<close>, inline asm and null, and four indirect calls
  (complete with a candidate, complete without, incomplete without, incomplete with).
\<close>

definition mkCall :: "nat \<Rightarrow> string \<Rightarrow> val \<Rightarrow> instruction" where
  "mkCall a n v = \<lparr>iaddr = a, iname = n, itext = ''call'', iop = CallInst v\<rparr>"

definition M_ex :: ir_module where
  "M_ex = [\<lparr>fn_name = ''f'', isDeclaration = False, hasInternalLinkage = False,
     fn_args = [],
     fn_blocks = [[mkCall 1 ''a'' (VFunction ''g''),
                   mkCall 2 ''b'' VUndef,
                   mkCall 3 ''c'' (VInlineAsm ''nop''),
                   \<lparr>iaddr = 10, iname = ''x'', itext = ''add'', iop = OtherInst\<rparr>],
                  [mkCall 4 ''d'' VNull,
                   mkCall 5 ''e'' (VOther ''p''),
                   mkCall 6 ''f'' (VOther ''q''),
                   mkCall 7 ''g'' (VOther ''r''),
                   mkCall 8 ''h'' (VCast (VFunction ''g'')),
                   mkCall 9 ''i'' (VOther ''s'')]]\<rparr>,
   \<lparr>fn_name = ''g'', isDeclaration = True, hasInternalLinkage = False,
     fn_args = [], fn_blocks = []\<rparr>]"

definition mkSite :: "nat \<Rightarrow> string \<Rightarrow> val \<Rightarrow> callsite" where
  "mkSite a n v = \<lparr>cs_caller = ''f'', cs_inst = mkCall a n v, cs_called = v\<rparr>"

definition emptyNode :: dsnode where
  "emptyNode = \<lparr>n_size = 0, n_types = [], n_flags = {}, n_edges = [], n_globals = [],
     n_forward = None\<rparr>"

definition T_ex :: dsa_results where
  "T_ex = \<lparr>cg_callees = (\<lambda>cs. if cs_called cs = VOther ''p'' \<or> cs_called cs = VOther ''s''
                              then [''g''] else []),
     cg_scc = (\<lambda>F. [F]),
     cg_sccLeader = (\<lambda>F. F),
     sm_leader = (\<lambda>F. F),
     sm_has = (\<lambda>F. F = ''g''),
     node_of = (\<lambda>F v. if v = VOther ''r'' \<or> v = VOther ''s''
                        then Some (emptyNode\<lparr>n_flags := {Incomplete}\<rparr>)
                        else Some emptyNode)\<rparr>"

definition st_ex :: ctf_state where
  "st_ex = \<lparr>AllSites = [mkSite 1 ''a'' (VFunction ''g''), mkSite 2 ''b'' VUndef,
       mkSite 3 ''c'' (VInlineAsm ''nop''), mkSite 4 ''d'' VNull, mkSite 5 ''e'' (VOther ''p''),
       mkSite 6 ''f'' (VOther ''q''), mkSite 7 ''g'' (VOther ''r''),
       mkSite 8 ''h'' (VCast (VFunction ''g'')), mkSite 9 ''i'' (VOther ''s'')],
     IndMap = [(mkSite 1 ''a'' (VFunction ''g''), [''g'']),
               (mkSite 5 ''e'' (VOther ''p''), [''g'']),
               (mkSite 6 ''f'' (VOther ''q''), []),
               (mkSite 8 ''h'' (VCast (VFunction ''g'')), [''g'']),
               (mkSite 9 ''i'' (VOther ''s''), [''g''])],
     CompleteSites = {1, 4, 5, 8},
     DirCall = 3, IndCall = 4, CompleteInd = 1, CompleteEmpty = 1\<rparr>"

text \<open>A module with one indirect call in \<open>f\<close>, whose SCC in the call graph is
  \<open>{f, h}\<close>; the call graph reports no callee for the site.\<close>

definition M_rec :: ir_module where
  "M_rec = [\<lparr>fn_name = ''f'', isDeclaration = False, hasInternalLinkage = False,
     fn_args = [], fn_blocks = [[mkCall 1 ''a'' (VOther ''p'')]]\<rparr>]"

definition T_rec :: dsa_results where
  "T_rec = \<lparr>cg_callees = (\<lambda>cs. []),
     cg_scc = (\<lambda>F. if F = ''f'' then [''f'', ''h''] else [F]),
     cg_sccLeader = (\<lambda>F. if F = ''h'' then ''f'' else F),
     sm_leader = (\<lambda>F. F),
     sm_has = (\<lambda>F. True),
     node_of = (\<lambda>F v. Some emptyNode)\<rparr>"

definition st_rec :: ctf_state where
  "st_rec = \<lparr>AllSites = [mkSite 1 ''a'' (VOther ''p'')],
     IndMap = [(mkSite 1 ''a'' (VOther ''p''), [''f'', ''h''])],
     CompleteSites = {1},
     DirCall = 0, IndCall = 1, CompleteInd = 1, CompleteEmpty = 0\<rparr>"

subsection \<open>The test module fp2.ll\<close>

text \<open>
  The module: \<open>@call(%fp, %arg)\<close> calls \<open>%fp(%arg)\<close> into \<open>%cval\<close> and returns it;
  \<open>@main\<close> allocates \<open>%mval\<close> and calls \<open>@call(@foo, %mval)\<close> into \<open>%mval2\<close>;
  \<open>@foo(%fval)\<close> returns \<open>%fval\<close>.
\<close>

definition fp2_cval :: instruction where
  "fp2_cval = \<lparr>iaddr = 1, iname = ''cval'', itext = ''%cval = call i8* %fp(i8* %arg)'',
     iop = CallInst (VOther ''fp'')\<rparr>"

definition fp2_mval2 :: instruction where
  "fp2_mval2 = \<lparr>iaddr = 4, iname = ''mval2'',
     itext = ''%mval2 = call i8* @call(i8* (i8*)* @foo, i8* %mval)'',
     iop = CallInst (VFunction ''call'')\<rparr>"

definition fp2 :: ir_module where
  "fp2 =
    [\<lparr>fn_name = ''call'', isDeclaration = False, hasInternalLinkage = True,
      fn_args = [(''fp'', True), (''arg'', True)],
      fn_blocks = [[fp2_cval,
                    \<lparr>iaddr = 2, iname = '''', itext = ''ret i8* %cval'', iop = OtherInst\<rparr>]]\<rparr>,
     \<lparr>fn_name = ''main'', isDeclaration = False, hasInternalLinkage = False,
      fn_args = [(''argc'', False), (''argv'', True)],
      fn_blocks = [[\<lparr>iaddr = 3, iname = ''mval'', itext = ''%mval = alloca i8'', iop = OtherInst\<rparr>,
                    fp2_mval2,
                    \<lparr>iaddr = 5, iname = '''', itext = ''ret i64 0'', iop = OtherInst\<rparr>]]\<rparr>,
     \<lparr>fn_name = ''foo'', isDeclaration = False, hasInternalLinkage = True,
      fn_args = [(''fval'', True)],
      fn_blocks = [[\<lparr>iaddr = 6, iname = '''', itext = ''ret i8* %fval'', iop = OtherInst\<rparr>]]\<rparr>]"

text \<open>
  Modelled from the spec: the local graphs the local analysis delivers for the three
  functions (one node for each pointer value, a returned value shares its node with the
  function's return handle, the node of \<open>@foo\<close> lists the global \<open>foo\<close>, and one call
  record for each call).
\<close>

definition fp2_call_graph :: dsgraph where
  "fp2_call_graph =
     \<lparr>g_nodes = [emptyNode, emptyNode, emptyNode],
      ScalarMap = [(SLocal ''call'' ''fp'', (0, 0)), (SLocal ''call'' ''arg'', (1, 0)),
                   (SLocal ''call'' ''cval'', (2, 0))],
      ReturnNodes = [(''call'', (2, 0))],
      VANodes = [],
      FunctionCalls =
        [\<lparr>dcs_site = \<lparr>cs_caller = ''call'', cs_inst = fp2_cval, cs_called = VOther ''fp''\<rparr>,
          dcs_callee = IndirectCallee (0, 0), dcs_ret = Some (2, 0), dcs_va = None,
          dcs_args = [(1, 0)]\<rparr>],
      AuxFunctionCalls = []\<rparr>"

definition fp2_main_graph :: dsgraph where
  "fp2_main_graph =
     \<lparr>g_nodes = [emptyNode,
                 emptyNode\<lparr>n_size := 1, n_types := [(0, (''i8'', 1))], n_flags := {AllocaBit}\<rparr>,
                 emptyNode,
                 emptyNode\<lparr>n_flags := {GlobalBit}, n_globals := [''foo'']\<rparr>],
      ScalarMap = [(SLocal ''main'' ''argv'', (0, 0)), (SLocal ''main'' ''mval'', (1, 0)),
                   (SLocal ''main'' ''mval2'', (2, 0)), (SGlobal ''foo'', (3, 0))],
      ReturnNodes = [],
      VANodes = [],
      FunctionCalls =
        [\<lparr>dcs_site = \<lparr>cs_caller = ''main'', cs_inst = fp2_mval2, cs_called = VFunction ''call''\<rparr>,
          dcs_callee = DirectCallee ''call'', dcs_ret = Some (2, 0), dcs_va = None,
          dcs_args = [(3, 0), (1, 0)]\<rparr>],
      AuxFunctionCalls = []\<rparr>"

definition fp2_foo_graph :: dsgraph where
  "fp2_foo_graph =
     \<lparr>g_nodes = [emptyNode],
      ScalarMap = [(SLocal ''foo'' ''fval'', (0, 0))],
      ReturnNodes = [(''foo'', (0, 0))],
      VANodes = [],
      FunctionCalls = [],
      AuxFunctionCalls = []\<rparr>"

text \<open>The call \<open>%fp(%arg)\<close> has the type of \<open>@foo\<close>, and of no other function of the
  module.\<close>

definition fp2_env :: steens_env where
  "fp2_env =
     \<lparr>getDSGraph = (\<lambda>F. if F = ''call'' then fp2_call_graph
                         else if F = ''main'' then fp2_main_graph
                         else if F = ''foo'' then fp2_foo_graph
                         else emptyGraph),
      functionIsCallable = (\<lambda>cs F. F = ''foo'')\<rparr>"

definition steens_init :: steens_state where
  "steens_init = \<lparr>ResultGraph = None, CallGraph = Map.empty\<rparr>"

text \<open>The result graph for fp2.ll after the three local graphs are spliced in, as the
  fixpoint loop finds it.\<close>

definition fp2_spliced :: dsgraph where
  "fp2_spliced =
     \<lparr>g_nodes = [emptyNode, emptyNode, emptyNode, emptyNode,
                 emptyNode\<lparr>n_size := 1, n_types := [(0, (''i8'', 1))], n_flags := {AllocaBit}\<rparr>,
                 emptyNode,
                 emptyNode\<lparr>n_flags := {GlobalBit}, n_globals := [''foo'']\<rparr>,
                 emptyNode],
      ScalarMap = [(SLocal ''call'' ''fp'', (0, 0)), (SLocal ''call'' ''arg'', (1, 0)),
                   (SLocal ''call'' ''cval'', (2, 0)), (SLocal ''main'' ''argv'', (3, 0)),
                   (SLocal ''main'' ''mval'', (4, 0)), (SLocal ''main'' ''mval2'', (5, 0)),
                   (SGlobal ''foo'', (6, 0)), (SLocal ''foo'' ''fval'', (7, 0))],
      ReturnNodes = [(''call'', (2, 0)), (''foo'', (7, 0))],
      VANodes = [],
      FunctionCalls =
        [\<lparr>dcs_site = \<lparr>cs_caller = ''call'', cs_inst = fp2_cval, cs_called = VOther ''fp''\<rparr>,
          dcs_callee = IndirectCallee (0, 0), dcs_ret = Some (2, 0), dcs_va = None,
          dcs_args = [(1, 0)]\<rparr>,
         \<lparr>dcs_site = \<lparr>cs_caller = ''main'', cs_inst = fp2_mval2, cs_called = VFunction ''call''\<rparr>,
          dcs_callee = DirectCallee ''call'', dcs_ret = Some (5, 0), dcs_va = None,
          dcs_args = [(6, 0), (4, 0)]\<rparr>],
      AuxFunctionCalls = []\<rparr>"

text \<open>What the finder reads for fp2.ll after the driver has run: the call through
  \<open>%fp\<close> has the callee \<open>foo\<close>, every function is its own SCC, and \<open>foo\<close> is the only
  function in the globals graph's scalar map.\<close>

definition fp2_results :: dsa_results where
  "fp2_results =
     \<lparr>cg_callees = (\<lambda>cs. if cs_called cs = VOther ''fp'' then [''foo''] else []),
      cg_scc = (\<lambda>F. [F]),
      cg_sccLeader = (\<lambda>F. F),
      sm_leader = (\<lambda>F. F),
      sm_has = (\<lambda>F. F = ''foo''),
      node_of = (\<lambda>F v. Some emptyNode)\<rparr>"

section \<open>Properties of the call-target finder\<close>

lemma foldE_append:
  "foldE f (xs @ ys) s = (case foldE f xs s of Inl e \<Rightarrow> Inl e | Inr s' \<Rightarrow> foldE f ys s')"
  by (induction xs arbitrary: s) (auto split: sum.splits)

lemma foldE_concat:
  "foldE (\<lambda>xs s. foldE f xs s) xss s = foldE f (concat xss) s"
  by (induction xss arbitrary: s) (auto simp: foldE_append split: sum.splits)

lemma foldE_visitInst:
  "foldE (visitInst T I) Bs st =
   foldE (visitCallSite T)
     (concat (map (\<lambda>B. case calledOperand (iop B) of
                         None \<Rightarrow> []
                       | Some v \<Rightarrow> [\<lparr>cs_caller = fn_name I, cs_inst = B, cs_called = v\<rparr>]) Bs)) st"
  by (induction Bs arbitrary: st) (auto simp: visitInst_def split: sum.splits option.splits)

lemma findIndTargets_sites:
  "findIndTargets T M st = foldE (visitCallSite T) (moduleCallSites M) st"
  unfolding findIndTargets_def moduleCallSites_def
  by (induction M arbitrary: st)
     (auto simp: foldE_append foldE_concat foldE_visitInst callSitesOf_def split: sum.splits)

lemma indKeys_simps [simp]: "indKeys [] = []" "indKeys ((k, v) # m) = cs_addr k # indKeys m"
  by (simp_all add: indKeys_def)

lemma lookupInd_None_iff: "lookupInd cs m = None \<longleftrightarrow> cs_addr cs \<notin> set (indKeys m)"
proof (induction m)
  case Nil
  then show ?case by simp
next
  case (Cons a m)
  then show ?case by (cases a) simp
qed

lemma set_indexUpd_keys:
  "set (indKeys (indexUpd cs u m)) = insert (cs_addr cs) (set (indKeys m))"
proof (induction m)
  case Nil
  then show ?case by simp
next
  case (Cons a m)
  then show ?case by (cases a) auto
qed

lemma wfInd_indexUpd: "wfInd m \<Longrightarrow> wfInd (indexUpd cs u m)"
  unfolding wfInd_def
proof (induction m)
  case Nil
  then show ?case by simp
next
  case (Cons a m)
  obtain k v where a: "a = (k, v)" by (cases a)
  show ?case
  proof (cases "cs_addr cs = cs_addr k")
    case True
    with Cons.prems a show ?thesis by simp
  next
    case False
    show ?thesis
    proof (cases "cs_addr cs < cs_addr k")
      case True
      with Cons.prems a False show ?thesis by auto
    next
      case gt: False
      from Cons.prems a have "sorted_wrt (<) (indKeys m)" by simp
      then have ih: "sorted_wrt (<) (indKeys (indexUpd cs u m))"
        by (rule Cons.IH)
      have "\<forall>x \<in> set (indKeys (indexUpd cs u m)). cs_addr k < x"
        using Cons.prems a False gt by (auto simp: set_indexUpd_keys)
      with ih a False gt show ?thesis by auto
    qed
  qed
qed

lemma lookupInd_indexUpd_same:
  "wfInd m \<Longrightarrow> lookupInd cs (indexUpd cs u m) = Some (u (case lookupInd cs m of None \<Rightarrow> [] | Some v \<Rightarrow> v))"
  unfolding wfInd_def
proof (induction m)
  case Nil
  then show ?case by simp
next
  case (Cons a m)
  obtain k v where a: "a = (k, v)" by (cases a)
  show ?case
  proof (cases "cs_addr cs < cs_addr k")
    case True
    with Cons.prems a have "cs_addr cs \<notin> set (indKeys m)" by auto
    then have "lookupInd cs m = None" by (simp add: lookupInd_None_iff)
    with True a show ?thesis by simp
  next
    case False
    with Cons a show ?thesis by auto
  qed
qed

lemma lookupInd_indexUpd_other:
  "cs_addr c \<noteq> cs_addr cs \<Longrightarrow> lookupInd c (indexUpd cs u m) = lookupInd c m"
  by (induction m) auto

lemma wfState_push_back: "wfState st \<Longrightarrow> wfState (push_back cs f st)"
  by (simp add: wfState_def push_back_def wfInd_indexUpd)

lemma wfState_fold_push_back: "wfState st \<Longrightarrow> wfState (fold (push_back cs) xs st)"
  by (induction xs arbitrary: st) (auto simp: wfState_push_back)

lemma wfState_pushSCC: "wfState st \<Longrightarrow> wfState (pushSCC T cs F st)"
  by (simp add: pushSCC_def wfState_fold_push_back)

lemma wfState_fold_pushSCC: "wfState st \<Longrightarrow> wfState (fold (pushSCC T cs) Fs st)"
  by (induction Fs arbitrary: st) (auto simp: wfState_pushSCC)

lemma wfState_touch: "wfState st \<Longrightarrow> wfState (touch cs st)"
  by (simp add: wfState_def touch_def wfInd_indexUpd)

lemma candidates_push_back:
  "wfState st \<Longrightarrow> candidates (push_back cs f st) cs = candidates st cs @ [f]"
  by (simp add: candidates_def push_back_def lookupInd_indexUpd_same wfState_def)

lemma candidates_fold_push_back:
  "wfState st \<Longrightarrow> candidates (fold (push_back cs) xs st) cs = candidates st cs @ xs"
  by (induction xs arbitrary: st) (auto simp: candidates_push_back wfState_push_back)

lemma candidates_pushSCC:
  "wfState st \<Longrightarrow> candidates (pushSCC T cs F st) cs = candidates st cs @ sccCandidates T F"
  by (simp add: pushSCC_def candidates_fold_push_back)

lemma candidates_fold_pushSCC:
  "wfState st \<Longrightarrow> candidates (fold (pushSCC T cs) Fs st) cs = candidates st cs @ concat (map (sccCandidates T) Fs)"
  by (induction Fs arbitrary: st) (auto simp: candidates_pushSCC wfState_pushSCC)

lemma candidates_touch: "wfState st \<Longrightarrow> candidates (touch cs st) cs = candidates st cs"
  by (simp add: candidates_def touch_def lookupInd_indexUpd_same wfState_def split: option.splits)

lemma skip_not_direct:
  "isa_UndefValue v \<or> isa_InlineAsm v \<Longrightarrow>
   dyn_cast_Function (stripPointerCasts v) = None \<and> \<not> isa_ConstantPointerNull (stripPointerCasts v)"
  by (cases v) auto

lemma CF_strip:
  "(case dyn_cast_Function v of None \<Rightarrow> dyn_cast_Function (stripPointerCasts v) | Some f \<Rightarrow> Some f)
   = dyn_cast_Function (stripPointerCasts v)"
  by (cases v) auto

lemma fold_push_back_fields:
  "CompleteSites (fold (push_back cs) xs st) = CompleteSites st
   \<and> DirCall (fold (push_back cs) xs st) = DirCall st
   \<and> IndCall (fold (push_back cs) xs st) = IndCall st
   \<and> CompleteInd (fold (push_back cs) xs st) = CompleteInd st
   \<and> CompleteEmpty (fold (push_back cs) xs st) = CompleteEmpty st
   \<and> AllSites (fold (push_back cs) xs st) = AllSites st"
  by (induction xs arbitrary: st) (auto simp: push_back_def)

lemma pushSCC_fields:
  "CompleteSites (pushSCC T cs F st) = CompleteSites st
   \<and> DirCall (pushSCC T cs F st) = DirCall st
   \<and> IndCall (pushSCC T cs F st) = IndCall st
   \<and> CompleteInd (pushSCC T cs F st) = CompleteInd st
   \<and> CompleteEmpty (pushSCC T cs F st) = CompleteEmpty st
   \<and> AllSites (pushSCC T cs F st) = AllSites st"
  by (simp add: pushSCC_def fold_push_back_fields)

lemma fold_pushSCC_fields:
  "CompleteSites (fold (pushSCC T cs) Fs st) = CompleteSites st
   \<and> DirCall (fold (pushSCC T cs) Fs st) = DirCall st
   \<and> IndCall (fold (pushSCC T cs) Fs st) = IndCall st
   \<and> CompleteInd (fold (pushSCC T cs) Fs st) = CompleteInd st
   \<and> CompleteEmpty (fold (pushSCC T cs) Fs st) = CompleteEmpty st
   \<and> AllSites (fold (pushSCC T cs) Fs st) = AllSites st"
  by (induction Fs arbitrary: st) (auto simp: pushSCC_fields)

lemma fold_push_back_other:
  "cs_addr c \<noteq> cs_addr cs \<Longrightarrow> lookupInd c (IndMap (fold (push_back cs) xs st)) = lookupInd c (IndMap st)"
  by (induction xs arbitrary: st) (auto simp: push_back_def lookupInd_indexUpd_other)

lemma pushSCC_other:
  "cs_addr c \<noteq> cs_addr cs \<Longrightarrow> lookupInd c (IndMap (pushSCC T cs F st)) = lookupInd c (IndMap st)"
  by (simp add: pushSCC_def fold_push_back_other)

lemma fold_pushSCC_other:
  "cs_addr c \<noteq> cs_addr cs \<Longrightarrow> lookupInd c (IndMap (fold (pushSCC T cs) Fs st)) = lookupInd c (IndMap st)"
  by (induction Fs arbitrary: st) (auto simp: pushSCC_other)

lemma wfState_IndCall [simp]: "wfState (st\<lparr>IndCall := n\<rparr>) = wfState st"
  by (simp add: wfState_def)

lemma candidates_IndCall [simp]: "candidates (st\<lparr>IndCall := n\<rparr>) c = candidates st c"
  by (simp add: candidates_def)

lemma indPushed_props:
  assumes "wfState st"
  shows "wfState (indPushed T cs st)"
    and "candidates (indPushed T cs st) cs = candidates st cs @ indTargets T cs"
    and "CompleteSites (indPushed T cs st) = CompleteSites st"
    and "DirCall (indPushed T cs st) = DirCall st"
    and "IndCall (indPushed T cs st) = IndCall st + 1"
    and "CompleteInd (indPushed T cs st) = CompleteInd st"
    and "CompleteEmpty (indPushed T cs st) = CompleteEmpty st"
    and "cs_addr c \<noteq> cs_addr cs \<Longrightarrow> lookupInd c (IndMap (indPushed T cs st)) = lookupInd c (IndMap st)"
proof -
  let ?s2 = "st\<lparr>IndCall := IndCall st + 1\<rparr>"
  let ?s3 = "fold (pushSCC T cs) (cg_callees T cs) ?s2"
  have w3: "wfState ?s3" using assms by (simp add: wfState_fold_pushSCC)
  show "wfState (indPushed T cs st)"
    unfolding indPushed_def using w3 by (rule wfState_pushSCC)
  show "candidates (indPushed T cs st) cs = candidates st cs @ indTargets T cs"
    unfolding indPushed_def indTargets_def
    using assms w3 by (simp add: candidates_pushSCC candidates_fold_pushSCC)
  show "CompleteSites (indPushed T cs st) = CompleteSites st"
    unfolding indPushed_def by (simp add: pushSCC_fields fold_pushSCC_fields)
  show "DirCall (indPushed T cs st) = DirCall st"
    unfolding indPushed_def by (simp add: pushSCC_fields fold_pushSCC_fields)
  show "IndCall (indPushed T cs st) = IndCall st + 1"
    unfolding indPushed_def by (simp add: pushSCC_fields fold_pushSCC_fields)
  show "CompleteInd (indPushed T cs st) = CompleteInd st"
    unfolding indPushed_def by (simp add: pushSCC_fields fold_pushSCC_fields)
  show "CompleteEmpty (indPushed T cs st) = CompleteEmpty st"
    unfolding indPushed_def by (simp add: pushSCC_fields fold_pushSCC_fields)
  show "cs_addr c \<noteq> cs_addr cs \<Longrightarrow> lookupInd c (IndMap (indPushed T cs st)) = lookupInd c (IndMap st)"
    unfolding indPushed_def by (simp add: pushSCC_other fold_pushSCC_other)
qed

lemma visitIndirect_eq:
  "visitIndirect T cs st =
     (case node_of T (cs_caller cs) (cs_called cs) of
        None \<Rightarrow> Inl NoDSNode
      | Some N \<Rightarrow>
         (let s4 = indPushed T cs st in
          if nodeIsComplete N then
            (if candidates (touch cs s4) cs \<noteq> []
             then Inr ((touch cs s4)\<lparr>CompleteSites := insert (cs_addr cs) (CompleteSites (touch cs s4)),
                                    CompleteInd := CompleteInd (touch cs s4) + 1\<rparr>)
             else Inr ((touch cs s4)\<lparr>CompleteEmpty := CompleteEmpty (touch cs s4) + 1\<rparr>))
          else Inr s4))"
  by (auto simp: visitIndirect_def indPushed_def Let_def candidates_def split: option.splits)

lemma lookupInd_fold_push_back:
  "wfState st \<Longrightarrow> lookupInd cs (IndMap (fold (push_back cs) xs st)) =
     (if xs = [] then lookupInd cs (IndMap st) else Some (candidates st cs @ xs))"
proof (induction xs arbitrary: st)
  case Nil
  then show ?case by simp
next
  case (Cons x xs)
  have w: "wfState (push_back cs x st)" using Cons.prems by (rule wfState_push_back)
  have c: "candidates (push_back cs x st) cs = candidates st cs @ [x]"
    using Cons.prems by (rule candidates_push_back)
  have l: "lookupInd cs (IndMap (push_back cs x st)) = Some (candidates st cs @ [x])"
    using Cons.prems by (simp add: push_back_def lookupInd_indexUpd_same wfState_def candidates_def)
  show ?case using Cons.IH[OF w] c l by simp
qed

lemma lookupInd_pushSCC:
  "wfState st \<Longrightarrow> lookupInd cs (IndMap (pushSCC T cs F st)) =
     (if sccCandidates T F = [] then lookupInd cs (IndMap st)
      else Some (candidates st cs @ sccCandidates T F))"
  unfolding pushSCC_def by (rule lookupInd_fold_push_back)

lemma lookupInd_fold_pushSCC:
  "wfState st \<Longrightarrow> lookupInd cs (IndMap (fold (pushSCC T cs) Fs st)) =
     (if concat (map (sccCandidates T) Fs) = [] then lookupInd cs (IndMap st)
      else Some (candidates st cs @ concat (map (sccCandidates T) Fs)))"
proof (induction Fs arbitrary: st)
  case Nil
  then show ?case by simp
next
  case (Cons F Fs)
  have w: "wfState (pushSCC T cs F st)" using Cons.prems by (rule wfState_pushSCC)
  have c: "candidates (pushSCC T cs F st) cs = candidates st cs @ sccCandidates T F"
    using Cons.prems by (rule candidates_pushSCC)
  show ?case
    using Cons.IH[OF w] c lookupInd_pushSCC[OF Cons.prems, of cs T F]
    by (auto simp: candidates_def)
qed

lemma lookupInd_IndCall [simp]: "IndMap (st\<lparr>IndCall := n\<rparr>) = IndMap st"
  by simp

lemma lookupInd_indPushed:
  assumes "wfState st"
  shows "lookupInd cs (IndMap (indPushed T cs st)) =
           (if indTargets T cs = [] then lookupInd cs (IndMap st)
            else Some (candidates st cs @ indTargets T cs))"
proof -
  let ?s3 = "fold (pushSCC T cs) (cg_callees T cs) (st\<lparr>IndCall := IndCall st + 1\<rparr>)"
  have w2: "wfState (st\<lparr>IndCall := IndCall st + 1\<rparr>)" using assms by simp
  have w3: "wfState ?s3" using w2 by (rule wfState_fold_pushSCC)
  have c3: "candidates ?s3 cs = candidates st cs @ concat (map (sccCandidates T) (cg_callees T cs))"
    using candidates_fold_pushSCC[OF w2, of T cs "cg_callees T cs"] by simp
  have l3: "lookupInd cs (IndMap ?s3) =
     (if concat (map (sccCandidates T) (cg_callees T cs)) = [] then lookupInd cs (IndMap st)
      else Some (candidates st cs @ concat (map (sccCandidates T) (cg_callees T cs))))"
    using lookupInd_fold_pushSCC[OF w2, of cs T "cg_callees T cs"] by simp
  have l4: "lookupInd cs (IndMap (indPushed T cs st)) =
     (if sccCandidates T (cg_sccLeader T (cs_caller cs)) = [] then lookupInd cs (IndMap ?s3)
      else Some (candidates ?s3 cs @ sccCandidates T (cg_sccLeader T (cs_caller cs))))"
    unfolding indPushed_def using w3 by (rule lookupInd_pushSCC)
  show ?thesis
    unfolding l4 l3 c3 indTargets_def by auto
qed

lemma visitCallSite_eq:
  "visitCallSite T cs st =
     (let s = st\<lparr>AllSites := AllSites st @ [cs]\<rparr> in
      if isa_UndefValue (cs_called cs) \<or> isa_InlineAsm (cs_called cs) then Inr s
      else case dyn_cast_Function (stripPointerCasts (cs_called cs)) of
             Some f \<Rightarrow>
               Inr ((push_back cs f (s\<lparr>DirCall := DirCall s + 1\<rparr>))
                      \<lparr>CompleteSites := insert (cs_addr cs) (CompleteSites s)\<rparr>)
           | None \<Rightarrow>
               if isa_ConstantPointerNull (stripPointerCasts (cs_called cs))
               then Inr (s\<lparr>CompleteSites := insert (cs_addr cs) (CompleteSites s),
                           DirCall := DirCall s + 1\<rparr>)
               else visitIndirect T cs s)"
  unfolding visitCallSite_def getCalledFunction_def Let_def CF_strip
  by (auto simp: push_back_def split: option.splits)

lemma keys_indexUpd: "fst ` set (indexUpd cs u m) \<subseteq> insert cs (fst ` set m)"
proof (induction m)
  case Nil
  then show ?case by simp
next
  case (Cons a m)
  then show ?case by (cases a) auto
qed

lemma keys_push_back: "indKeySet (push_back cs f st) \<subseteq> insert cs (indKeySet st)"
  by (simp add: indKeySet_def push_back_def keys_indexUpd)

lemma keys_touch: "indKeySet (touch cs st) \<subseteq> insert cs (indKeySet st)"
  by (simp add: indKeySet_def touch_def keys_indexUpd)

lemma keys_fold_push_back: "indKeySet (fold (push_back cs) xs st) \<subseteq> insert cs (indKeySet st)"
proof (induction xs arbitrary: st)
  case Nil
  then show ?case by auto
next
  case (Cons x xs)
  have "indKeySet (fold (push_back cs) xs (push_back cs x st)) \<subseteq> insert cs (indKeySet (push_back cs x st))"
    by (rule Cons.IH)
  with keys_push_back[of cs x st] show ?case by auto
qed

lemma keys_pushSCC: "indKeySet (pushSCC T cs F st) \<subseteq> insert cs (indKeySet st)"
  unfolding pushSCC_def by (rule keys_fold_push_back)

lemma keys_fold_pushSCC: "indKeySet (fold (pushSCC T cs) Fs st) \<subseteq> insert cs (indKeySet st)"
proof (induction Fs arbitrary: st)
  case Nil
  then show ?case by auto
next
  case (Cons F Fs)
  have "indKeySet (fold (pushSCC T cs) Fs (pushSCC T cs F st)) \<subseteq> insert cs (indKeySet (pushSCC T cs F st))"
    by (rule Cons.IH)
  with keys_pushSCC[of T cs F st] show ?case by auto
qed

lemma keys_indPushed: "indKeySet (indPushed T cs st) \<subseteq> insert cs (indKeySet st)"
proof -
  have a: "indKeySet (st\<lparr>IndCall := IndCall st + 1\<rparr>) = indKeySet st" by (simp add: indKeySet_def)
  show ?thesis
    unfolding indPushed_def
    using keys_pushSCC[of T cs "cg_sccLeader T (cs_caller cs)" "fold (pushSCC T cs) (cg_callees T cs) (st\<lparr>IndCall := IndCall st + 1\<rparr>)"]
      keys_fold_pushSCC[of T cs "cg_callees T cs" "st\<lparr>IndCall := IndCall st + 1\<rparr>"] a
    by auto
qed

lemma touch_fields:
  "CompleteSites (touch cs st) = CompleteSites st \<and> DirCall (touch cs st) = DirCall st
   \<and> IndCall (touch cs st) = IndCall st \<and> CompleteInd (touch cs st) = CompleteInd st
   \<and> CompleteEmpty (touch cs st) = CompleteEmpty st \<and> AllSites (touch cs st) = AllSites st"
  by (simp add: touch_def)

lemma touch_other:
  "cs_addr c \<noteq> cs_addr cs \<Longrightarrow> lookupInd c (IndMap (touch cs st)) = lookupInd c (IndMap st)"
  by (simp add: touch_def lookupInd_indexUpd_other)

lemma lookupInd_touch:
  "wfState st \<Longrightarrow> lookupInd cs (IndMap (touch cs st)) = Some (candidates st cs)"
  by (simp add: touch_def lookupInd_indexUpd_same wfState_def candidates_def)

lemma visit_stepSpec:
  assumes w: "wfState st" and n: "lookupInd cs (IndMap st) = None"
    and v: "visitCallSite T cs st = Inr st'"
  shows "stepSpec T cs st st'"
proof -
  let ?s = "st\<lparr>AllSites := AllSites st @ [cs]\<rparr>"
  have ws: "wfState ?s" using w by (simp add: wfState_def)
  have ns: "lookupInd cs (IndMap ?s) = None" using n by simp
  have cs0: "candidates ?s cs = []" using n by (simp add: candidates_def)
  consider (skip) "isa_UndefValue (cs_called cs) \<or> isa_InlineAsm (cs_called cs)"
    | (direct) f where "\<not> (isa_UndefValue (cs_called cs) \<or> isa_InlineAsm (cs_called cs))"
        "dyn_cast_Function (stripPointerCasts (cs_called cs)) = Some f"
    | (null) "\<not> (isa_UndefValue (cs_called cs) \<or> isa_InlineAsm (cs_called cs))"
        "dyn_cast_Function (stripPointerCasts (cs_called cs)) = None"
        "isa_ConstantPointerNull (stripPointerCasts (cs_called cs))"
    | (ind) "isIndirectSite cs"
    unfolding isIndirectSite_def by (cases "dyn_cast_Function (stripPointerCasts (cs_called cs))") auto
  then show ?thesis
  proof cases
    case skip
    then have e: "st' = ?s" using v by (auto simp: visitCallSite_eq Let_def)
    have nd: "\<not> directSpec cs" "\<not> isIndirectSite cs"
      using skip skip_not_direct[of "cs_called cs"] by (auto simp: directSpec_def isIndirectSite_def)
    have sp: "entrySpec T cs = None" "\<not> completeSpec T cs" "\<not> completeIndSpec T cs"
        "\<not> completeEmptySpec T cs"
      using skip nd by (auto simp: entrySpec_def completeSpec_def completeIndSpec_def completeEmptySpec_def)
    show ?thesis
      unfolding stepSpec_def e using nd sp ws n
      by (auto simp: indKeySet_def)
  next
    case direct
    then have e: "st' = (push_back cs f (?s\<lparr>DirCall := DirCall ?s + 1\<rparr>))
                      \<lparr>CompleteSites := insert (cs_addr cs) (CompleteSites ?s)\<rparr>"
      using v by (auto simp: visitCallSite_eq Let_def)
    have ni: "\<not> isIndirectSite cs" "directSpec cs"
      using direct by (simp_all add: isIndirectSite_def directSpec_def)
    have sp: "entrySpec T cs = Some [f]" "completeSpec T cs" "\<not> completeIndSpec T cs"
        "\<not> completeEmptySpec T cs"
      using direct ni by (auto simp: entrySpec_def completeSpec_def completeIndSpec_def completeEmptySpec_def)
    have l: "lookupInd cs (IndMap st') = Some [f]"
      unfolding e using w n by (simp add: push_back_def lookupInd_indexUpd_same wfState_def)
    have k: "indKeySet st' \<subseteq> insert cs (indKeySet st)"
      unfolding e using keys_indexUpd[of cs "\<lambda>v. v @ [f]" "IndMap st"]
      by (simp add: indKeySet_def push_back_def)
    have w': "wfState st'" unfolding e using w by (simp add: wfState_def push_back_def wfInd_indexUpd)
    have o: "\<forall>c. cs_addr c \<noteq> cs_addr cs \<longrightarrow> lookupInd c (IndMap st') = lookupInd c (IndMap st)"
      unfolding e by (simp add: push_back_def lookupInd_indexUpd_other)
    have f: "CompleteSites st' = insert (cs_addr cs) (CompleteSites st)" "DirCall st' = DirCall st + 1"
      "IndCall st' = IndCall st" "CompleteInd st' = CompleteInd st" "CompleteEmpty st' = CompleteEmpty st"
      "AllSites st' = AllSites st @ [cs]"
      unfolding e by (simp_all add: push_back_def)
    show ?thesis
      unfolding stepSpec_def using ni sp l k w' o f by simp
  next
    case null
    then have e: "st' = ?s\<lparr>CompleteSites := insert (cs_addr cs) (CompleteSites ?s),
                           DirCall := DirCall ?s + 1\<rparr>"
      using v by (auto simp: visitCallSite_eq Let_def)
    have ni: "\<not> isIndirectSite cs" "directSpec cs"
      using null by (simp_all add: isIndirectSite_def directSpec_def)
    have sp: "entrySpec T cs = None" "completeSpec T cs" "\<not> completeIndSpec T cs"
        "\<not> completeEmptySpec T cs"
      using null ni by (auto simp: entrySpec_def completeSpec_def completeIndSpec_def completeEmptySpec_def)
    show ?thesis
      unfolding stepSpec_def e using ni sp w n
      by (auto simp: indKeySet_def wfState_def)
  next
    case ind
    then have vi: "visitIndirect T cs ?s = Inr st'"
      using v by (auto simp: visitCallSite_eq Let_def isIndirectSite_def)
    then obtain N where N: "node_of T (cs_caller cs) (cs_called cs) = Some N"
      by (auto simp: visitIndirect_eq split: option.splits)
    let ?s4 = "indPushed T cs ?s"
    note P = indPushed_props[OF ws, where T=T and cs=cs]
    have c4: "candidates ?s4 cs = indTargets T cs" using P(2) cs0 by simp
    have l4: "lookupInd cs (IndMap ?s4) = (if indTargets T cs = [] then None else Some (indTargets T cs))"
      using lookupInd_indPushed[OF ws, where T=T and cs=cs] ns cs0 by simp
    have k4: "indKeySet ?s4 \<subseteq> insert cs (indKeySet st)"
      using keys_indPushed[of T cs ?s] by (simp add: indKeySet_def)
    have nd: "\<not> directSpec cs" using ind by (simp add: directSpec_def isIndirectSite_def)
    have pre: "\<not> (isa_UndefValue (cs_called cs) \<or> isa_InlineAsm (cs_called cs))"
        "dyn_cast_Function (stripPointerCasts (cs_called cs)) = None"
        "\<not> isa_ConstantPointerNull (stripPointerCasts (cs_called cs))"
      using ind by (auto simp: isIndirectSite_def)
    have cn: "calleeNode T cs = Some N" using N by (simp add: calleeNode_def)
    have sp: "entrySpec T cs = (if nodeIsComplete N \<or> indTargets T cs \<noteq> [] then Some (indTargets T cs) else None)"
      "completeSpec T cs = (nodeIsComplete N \<and> indTargets T cs \<noteq> [])"
      "completeIndSpec T cs = (nodeIsComplete N \<and> indTargets T cs \<noteq> [])"
      "completeEmptySpec T cs = (nodeIsComplete N \<and> indTargets T cs = [])"
      using pre nd ind cn by (simp_all add: entrySpec_def completeSpec_def completeIndSpec_def completeEmptySpec_def)
    have f4: "CompleteSites ?s4 = CompleteSites st" "DirCall ?s4 = DirCall st"
      "IndCall ?s4 = IndCall st + 1" "CompleteInd ?s4 = CompleteInd st" "CompleteEmpty ?s4 = CompleteEmpty st"
      using P(3) P(4) P(5) P(6) P(7) by simp_all
    have a4: "AllSites ?s4 = AllSites st @ [cs]"
      unfolding indPushed_def by (simp add: pushSCC_fields fold_pushSCC_fields)
    have o4: "\<forall>c. cs_addr c \<noteq> cs_addr cs \<longrightarrow> lookupInd c (IndMap ?s4) = lookupInd c (IndMap st)"
      using P(8) by simp
    show ?thesis
    proof (cases "nodeIsComplete N")
      case False
      then have e: "st' = ?s4" using vi N by (simp add: visitIndirect_eq Let_def)
      show ?thesis
        unfolding stepSpec_def e sp
        using False ind nd cn P(1) f4 a4 l4 k4 o4 by simp
    next
      case True
      let ?s5 = "touch cs ?s4"
      have w5: "wfState ?s5" using P(1) by (rule wfState_touch)
      have c5: "candidates ?s5 cs = indTargets T cs" using candidates_touch[OF P(1)] c4 by simp
      have l5: "lookupInd cs (IndMap ?s5) = Some (indTargets T cs)"
        using lookupInd_touch[OF P(1), of cs] c4 by simp
      have k5: "indKeySet ?s5 \<subseteq> insert cs (indKeySet st)"
        using keys_touch[of cs ?s4] k4 by auto
      have o5: "\<forall>c. cs_addr c \<noteq> cs_addr cs \<longrightarrow> lookupInd c (IndMap ?s5) = lookupInd c (IndMap st)"
        using P(8) by (simp add: touch_other)
      have f5: "CompleteSites ?s5 = CompleteSites st" "DirCall ?s5 = DirCall st"
        "IndCall ?s5 = IndCall st + 1" "CompleteInd ?s5 = CompleteInd st"
        "CompleteEmpty ?s5 = CompleteEmpty st" "AllSites ?s5 = AllSites st @ [cs]"
        using f4 a4 touch_fields[of cs ?s4] by simp_all
      show ?thesis
      proof (cases "indTargets T cs = []")
        case e0: True
        then have e: "st' = ?s5\<lparr>CompleteEmpty := CompleteEmpty ?s5 + 1\<rparr>"
          using vi N True c5 by (simp add: visitIndirect_eq Let_def)
        have w': "wfState st'" "indKeySet st' = indKeySet ?s5" "IndMap st' = IndMap ?s5"
          unfolding e using w5 by (simp_all add: wfState_def indKeySet_def)
        have f': "CompleteSites st' = CompleteSites st" "DirCall st' = DirCall st"
        "IndCall st' = IndCall st + 1" "CompleteInd st' = CompleteInd st"
        "CompleteEmpty st' = CompleteEmpty st + 1" "AllSites st' = AllSites st @ [cs]"
          unfolding e using f5 by simp_all
        show ?thesis
          unfolding stepSpec_def sp w'(2) w'(3)
          using True e0 ind nd cn w'(1) l5 k5 o5 f' by simp
      next
        case e1: False
        then have e: "st' = ?s5\<lparr>CompleteSites := insert (cs_addr cs) (CompleteSites ?s5),
                                CompleteInd := CompleteInd ?s5 + 1\<rparr>"
          using vi N True c5 by (simp add: visitIndirect_eq Let_def)
        have w': "wfState st'" "indKeySet st' = indKeySet ?s5" "IndMap st' = IndMap ?s5"
          unfolding e using w5 by (simp_all add: wfState_def indKeySet_def)
        have f': "CompleteSites st' = insert (cs_addr cs) (CompleteSites st)" "DirCall st' = DirCall st"
        "IndCall st' = IndCall st + 1" "CompleteInd st' = CompleteInd st + 1"
        "CompleteEmpty st' = CompleteEmpty st" "AllSites st' = AllSites st @ [cs]"
          unfolding e using f5 by simp_all
        show ?thesis
          unfolding stepSpec_def sp w'(2) w'(3)
          using True e1 ind nd cn w'(1) l5 k5 o5 f' by simp
      qed
    qed
  qed
qed

lemma run_runSpec:
  assumes "wfState st" "distinct (map cs_addr sites)"
    "\<forall>cs \<in> set sites. lookupInd cs (IndMap st) = None"
    "foldE (visitCallSite T) sites st = Inr st'"
  shows "runSpec T sites st st'"
  using assms
proof (induction sites arbitrary: st)
  case Nil
  then show ?case by (simp add: runSpec_def)
next
  case (Cons x xs)
  from Cons.prems(4) obtain s1 where v: "visitCallSite T x st = Inr s1"
    and r: "foldE (visitCallSite T) xs s1 = Inr st'"
    by (auto split: sum.splits)
  have n: "lookupInd x (IndMap st) = None" using Cons.prems(3) by simp
  have S: "stepSpec T x st s1" using Cons.prems(1) n v by (rule visit_stepSpec)
  have w1: "wfState s1" using S by (simp add: stepSpec_def)
  have d: "distinct (map cs_addr xs)" "cs_addr x \<notin> cs_addr ` set xs" using Cons.prems(2) by auto
  have o: "\<And>c. cs_addr c \<noteq> cs_addr x \<Longrightarrow> lookupInd c (IndMap s1) = lookupInd c (IndMap st)"
    using S by (simp add: stepSpec_def)
  have n1: "\<forall>cs \<in> set xs. lookupInd cs (IndMap s1) = None"
  proof
    fix cs assume c: "cs \<in> set xs"
    then have "cs_addr cs \<in> cs_addr ` set xs" by (rule imageI)
    then have "cs_addr cs \<noteq> cs_addr x" using d(2) by metis
    then show "lookupInd cs (IndMap s1) = None" using o Cons.prems(3) c by simp
  qed
  have R: "runSpec T xs s1 st'" using w1 d(1) n1 r by (rule Cons.IH)
  have x': "lookupInd x (IndMap st') = entrySpec T x"
    using R S d(2) by (simp add: runSpec_def stepSpec_def)
  have cs': "CompleteSites st' = CompleteSites st \<union> cs_addr ` {cs \<in> set (x # xs). completeSpec T cs}"
    using R S by (auto simp: runSpec_def stepSpec_def)
  have k': "indKeySet st' \<subseteq> set (x # xs) \<union> indKeySet st"
    using R S by (auto simp: runSpec_def stepSpec_def)
  have o': "\<forall>c. cs_addr c \<notin> cs_addr ` set (x # xs) \<longrightarrow> lookupInd c (IndMap st') = lookupInd c (IndMap st)"
    using R o by (auto simp: runSpec_def)
  have cnt: "DirCall st' = DirCall st + length (filter directSpec (x # xs))"
    "IndCall st' = IndCall st + length (filter isIndirectSite (x # xs))"
    "CompleteInd st' = CompleteInd st + length (filter (completeIndSpec T) (x # xs))"
    "CompleteEmpty st' = CompleteEmpty st + length (filter (completeEmptySpec T) (x # xs))"
    "AllSites st' = AllSites st @ (x # xs)"
    using R S by (simp_all add: runSpec_def stepSpec_def)
  have rest: "wfState st'" "\<forall>cs \<in> set xs. lookupInd cs (IndMap st') = entrySpec T cs"
    "\<forall>cs \<in> set (x # xs). isIndirectSite cs \<longrightarrow> calleeNode T cs \<noteq> None"
    using R S by (simp_all add: runSpec_def stepSpec_def)
  show ?case
    unfolding runSpec_def using x' cs' k' o' cnt rest by simp
qed

lemma wfState_init: "wfState ctf_init"
  by (simp add: wfState_def wfInd_def ctf_init_def)

lemma findIndTargets_runSpec:
  assumes "findIndTargets T M ctf_init = Inr st" "distinct (map cs_addr (moduleCallSites M))"
  shows "runSpec T (moduleCallSites M) ctf_init st"
proof -
  have "\<forall>cs \<in> set (moduleCallSites M). lookupInd cs (IndMap ctf_init) = None"
    by (simp add: ctf_init_def)
  with wfState_init assms(2) show ?thesis
    using assms(1) unfolding findIndTargets_sites by (rule run_runSpec)
qed

lemma ex_sites: "moduleCallSites M_ex = AllSites st_ex"
  by (simp add: moduleCallSites_def callSitesOf_def M_ex_def st_ex_def mkCall_def mkSite_def)

lemma ex_run: "findIndTargets T_ex M_ex ctf_init = Inr st_ex"
  unfolding findIndTargets_sites ex_sites
  by (auto simp: st_ex_def visitCallSite_eq visitIndirect_eq indPushed_def pushSCC_def sccCandidates_def
       push_back_def touch_def candidates_def nodeIsComplete_def isIncompleteNode_def isExternalNode_def
       T_ex_def mkSite_def mkCall_def cs_addr_def ctf_init_def emptyNode_def Let_def)

lemma ex_distinct: "distinct (map cs_addr (moduleCallSites M_ex))"
  unfolding ex_sites by (simp add: st_ex_def mkSite_def mkCall_def cs_addr_def)

lemma candidates_entrySpec:
  "lookupInd cs (IndMap st) = entrySpec T cs \<Longrightarrow> isIndirectSite cs \<Longrightarrow> calleeNode T cs \<noteq> None
   \<Longrightarrow> candidates st cs = indTargets T cs"
  by (auto simp: candidates_def entrySpec_def isIndirectSite_def split: option.splits)

lemma ex_mem:
  "mkSite 5 ''e'' (VOther ''p'') \<in> set (moduleCallSites M_ex)"
  "mkSite 6 ''f'' (VOther ''q'') \<in> set (moduleCallSites M_ex)"
  "mkSite 7 ''g'' (VOther ''r'') \<in> set (moduleCallSites M_ex)"
  "mkSite 9 ''i'' (VOther ''s'') \<in> set (moduleCallSites M_ex)"
  "mkSite 3 ''c'' (VInlineAsm ''nop'') \<in> set (moduleCallSites M_ex)"
  unfolding ex_sites by (simp_all add: st_ex_def)

lemma ex_indirect:
  "isIndirectSite (mkSite 5 ''e'' (VOther ''p''))"
  "isIndirectSite (mkSite 6 ''f'' (VOther ''q''))"
  "isIndirectSite (mkSite 7 ''g'' (VOther ''r''))"
  "isIndirectSite (mkSite 9 ''i'' (VOther ''s''))"
  by (simp_all add: isIndirectSite_def mkSite_def)

lemma wfInd_lookup_mem: "wfInd m \<Longrightarrow> (k, v) \<in> set m \<Longrightarrow> lookupInd k m = Some v"
  unfolding wfInd_def
proof (induction m)
  case Nil
  then show ?case by simp
next
  case (Cons a m)
  obtain k' v' where a: "a = (k', v')" by (cases a)
  show ?case
  proof (cases "(k, v) = a")
    case True
    then show ?thesis using a by simp
  next
    case False
    then have m: "(k, v) \<in> set m" using Cons.prems(2) by simp
    then have "cs_addr k \<in> set (indKeys m)" by (force simp: indKeys_def)
    then have "cs_addr k \<noteq> cs_addr k'" using Cons.prems(1) a by auto
    moreover have "lookupInd k m = Some v" using Cons.IH m Cons.prems(1) a by simp
    ultimately show ?thesis using a by simp
  qed
qed

lemma lookup_mem_ex: "lookupInd c m = Some v \<Longrightarrow> \<exists>k. (k, v) \<in> set m \<and> cs_addr k = cs_addr c"
proof (induction m)
  case Nil
  then show ?case by simp
next
  case (Cons a m)
  then show ?case by (cases a) (auto split: if_splits)
qed

lemma concat_map_filter_if:
  "\<forall>e \<in> set m. f e = (if P e then g e else []) \<Longrightarrow> concat (map f m) = concat (map g (filter P m))"
  by (induction m) auto

lemma printEntry_entry:
  assumes "entrySpec T (fst e) = Some v"
  shows "printEntry st e = (if isIndirectSite (fst e) then reportLine st e else [])"
proof -
  let ?c = "cs_called (fst e)"
  have ns: "\<not> isa_UndefValue ?c" "\<not> isa_InlineAsm ?c"
    using assms by (auto simp: entrySpec_def split: if_splits)
  have d: "dyn_cast_Function ?c \<noteq> None \<Longrightarrow> dyn_cast_Function (stripPointerCasts ?c) \<noteq> None"
    by (cases ?c) auto
  show ?thesis
  proof (cases "dyn_cast_Function (stripPointerCasts ?c)")
    case (Some f)
    then have "\<not> isIndirectSite (fst e)" by (simp add: isIndirectSite_def)
    then show ?thesis using Some by (simp add: printEntry_def getCalledFunction_def Let_def)
  next
    case None
    then have nn: "\<not> isa_ConstantPointerNull (stripPointerCasts ?c)"
      using assms ns by (auto simp: entrySpec_def split: if_splits)
    have i: "isIndirectSite (fst e)" using None nn ns by (simp add: isIndirectSite_def)
    have g: "dyn_cast_Function ?c = None" using d None by (cases "dyn_cast_Function ?c") auto
    show ?thesis using i None g
      by (simp add: printEntry_def getCalledFunction_def Let_def reportLine_def)
  qed
qed

lemma IndMap_runSpec:
  assumes R: "runSpec T sites ctf_init st" and d: "distinct (map cs_addr sites)"
  shows "set (IndMap st) = {(cs, v). cs \<in> set sites \<and> entrySpec T cs = Some v}"
proof (rule set_eqI)
  fix e :: "callsite \<times> fname list"
  obtain k v where e: "e = (k, v)" by (cases e)
  have w: "wfInd (IndMap st)" using R by (simp add: runSpec_def wfState_def)
  have ks: "indKeySet st \<subseteq> set sites" using R by (simp add: runSpec_def indKeySet_def ctf_init_def)
  have ls: "\<And>c. c \<in> set sites \<Longrightarrow> lookupInd c (IndMap st) = entrySpec T c"
    using R by (simp add: runSpec_def)
  show "e \<in> set (IndMap st) \<longleftrightarrow> e \<in> {(cs, v). cs \<in> set sites \<and> entrySpec T cs = Some v}"
  proof
    assume m: "e \<in> set (IndMap st)"
    then have "k \<in> indKeySet st" unfolding e indKeySet_def by force
    then have k: "k \<in> set sites" using ks by auto
    have "lookupInd k (IndMap st) = Some v" using w m e by (simp add: wfInd_lookup_mem)
    then show "e \<in> {(cs, v). cs \<in> set sites \<and> entrySpec T cs = Some v}"
      using k ls e by simp
  next
    assume "e \<in> {(cs, v). cs \<in> set sites \<and> entrySpec T cs = Some v}"
    then have k: "k \<in> set sites" and s: "entrySpec T k = Some v" using e by auto
    then have "lookupInd k (IndMap st) = Some v" using ls by simp
    then obtain k' where k': "(k', v) \<in> set (IndMap st)" "cs_addr k' = cs_addr k"
      using lookup_mem_ex by blast
    then have "k' \<in> indKeySet st" unfolding indKeySet_def by force
    then have "k' \<in> set sites" using ks by auto
    with d k k'(2) have "k' = k" by (meson distinct_map inj_onD)
    then show "e \<in> set (IndMap st)" using k'(1) e by simp
  qed
qed

lemma rec_run: "findIndTargets T_rec M_rec ctf_init = Inr st_rec"
  unfolding findIndTargets_sites
  by (auto simp: moduleCallSites_def callSitesOf_def M_rec_def st_rec_def visitCallSite_eq
       visitIndirect_eq indPushed_def pushSCC_def sccCandidates_def
       push_back_def touch_def candidates_def nodeIsComplete_def isIncompleteNode_def isExternalNode_def
       T_rec_def mkSite_def mkCall_def cs_addr_def ctf_init_def emptyNode_def Let_def)

lemma rec_sites: "moduleCallSites M_rec = [mkSite 1 ''a'' (VOther ''p'')]"
  by (simp add: moduleCallSites_def callSitesOf_def M_rec_def mkSite_def mkCall_def)

lemma CTF_runOnModule_false:
  "(\<exists>st'. CTF_runOnModule T M st = Inr (False, st')) \<or> CTF_runOnModule T M st = Inl NoDSNode"
proof (cases "findIndTargets T M st")
  case (Inl e)
  then show ?thesis by (cases e) (simp add: CTF_runOnModule_def)
next
  case (Inr s)
  then show ?thesis by (simp add: CTF_runOnModule_def)
qed

section \<open>Properties of the node store\<close>

lemma reaches_lt: "reaches ns n r \<Longrightarrow> n < length ns \<and> r < length ns \<and> n_forward (ns ! r) = None"
  by (induction rule: reaches.induct) auto

lemma reaches_det: "reaches ns n r \<Longrightarrow> reaches ns n r' \<Longrightarrow> r = r'"
proof (induction arbitrary: r' rule: reaches.induct)
  case (rep n)
  from rep.prems show ?case
  proof (cases rule: reaches.cases)
    case rep
    then show ?thesis by simp
  next
    case (fwd f)
    then show ?thesis using rep.hyps by simp
  qed
next
  case (fwd n f r)
  from fwd.prems show ?case
  proof (cases rule: reaches.cases)
    case rep
    then show ?thesis using fwd.hyps by simp
  next
    case (fwd f')
    then have "f' = f" using fwd.hyps by simp
    then show ?thesis using fwd.IH fwd(3) by simp
  qed
qed

lemma chase_reaches: "reaches ns n r \<Longrightarrow> \<exists>off'. chase ns (n, off) = Some (r, off')"
proof (induction arbitrary: off rule: reaches.induct)
  case (rep n)
  then show ?case by (subst chase.simps) simp
next
  case (fwd n f r)
  from fwd.IH[of "off + snd f"] obtain off' where "chase ns (fst f, off + snd f) = Some (r, off')"
    by blast
  then show ?case using fwd.hyps by (subst chase.simps) simp
qed

lemma wf_chase:
  assumes "wfStore ns" "fst h < length ns"
  shows "\<exists>r. chase ns h = Some r \<and> reaches ns (fst h) (fst r)"
proof -
  from assms obtain r where r: "reaches ns (fst h) r" by (auto simp: wfStore_def)
  from chase_reaches[OF r, of "snd h"] show ?thesis using r by auto
qed

lemma wf_normalize:
  assumes "wfStore ns" "fst h < length ns"
  shows "\<exists>r. normalize ns h = Some r \<and> reaches ns (fst h) (fst r)"
  using wf_chase[OF assms] by (auto simp: normalize_def)

text \<open>Stores with the same forwarding pointers have the same chains.\<close>

lemma reaches_same_forward:
  assumes "reaches ns n r" "length ns' = length ns"
    "\<forall>k < length ns. n_forward (ns' ! k) = n_forward (ns ! k)"
  shows "reaches ns' n r"
  using assms
proof (induction rule: reaches.induct)
  case (rep n)
  then have "n < length ns'" "n_forward (ns' ! n) = None" by auto
  then show ?case by (rule reaches.rep)
next
  case (fwd n f r)
  then have "n < length ns'" "n_forward (ns' ! n) = Some f" "reaches ns' (fst f) r" by auto
  then show ?case by (rule reaches.fwd)
qed

text \<open>Forwarding the representative \<open>s\<close> to the representative \<open>r\<close>.\<close>

lemma reaches_link:
  assumes "reaches ns n x" "length ns' = length ns"
    "s < length ns" "r < length ns" "r \<noteq> s" "n_forward (ns ! r) = None"
    "n_forward (ns ! s) = None"
    "n_forward (ns' ! s) = Some (r, d)"
    "\<forall>k < length ns. k \<noteq> s \<longrightarrow> n_forward (ns' ! k) = n_forward (ns ! k)"
  shows "reaches ns' n (if x = s then r else x)"
  using assms
proof (induction rule: reaches.induct)
  case (rep n)
  have "r < length ns'" "n_forward (ns' ! r) = None" using rep.prems by auto
  then have rr: "reaches ns' r r" by (rule reaches.rep)
  show ?case
  proof (cases "n = s")
    case True
    have "s < length ns'" "n_forward (ns' ! s) = Some (r, d)" "reaches ns' (fst (r, d)) r"
      using rep.prems rr by auto
    then have "reaches ns' s r" by (rule reaches.fwd)
    then show ?thesis using True by simp
  next
    case False
    then have "n < length ns'" "n_forward (ns' ! n) = None" using rep by auto
    then have "reaches ns' n n" by (rule reaches.rep)
    then show ?thesis using False by simp
  qed
next
  case (fwd n f x)
  have ns: "n \<noteq> s" using fwd.hyps fwd.prems by auto
  have a: "reaches ns' (fst f) (if x = s then r else x)" using fwd.IH fwd.prems by simp
  have b: "n_forward (ns' ! n) = Some f" using fwd.hyps fwd.prems ns by simp
  have c: "n < length ns'" using fwd.hyps(1) fwd.prems(1) by simp
  show ?case using c b a by (rule reaches.fwd)
qed

lemma mu_update:
  "k < length ns \<Longrightarrow> mu (ns[k := N]) + weight (ns ! k) = mu ns + weight N"
  unfolding mu_def
proof (induction ns arbitrary: k)
  case Nil
  then show ?case by simp
next
  case (Cons a ns)
  then show ?case by (cases k) auto
qed

lemma grows_refl: "grows ns ns"
  by (auto simp: grows_def)

lemma grows_trans:
  assumes "grows a b" "grows b c"
  shows "grows a c"
proof -
  have "\<exists>r'. reaches c n r' \<and> set (n_globals (a ! r)) \<subseteq> set (n_globals (c ! r'))"
    if "reaches a n r" for n r
  proof -
    from assms(1) that obtain r1 where r1: "reaches b n r1"
      "set (n_globals (a ! r)) \<subseteq> set (n_globals (b ! r1))"
      unfolding grows_def by blast
    from assms(2) r1(1) obtain r2 where r2: "reaches c n r2"
      "set (n_globals (b ! r1)) \<subseteq> set (n_globals (c ! r2))"
      unfolding grows_def by blast
    from r1(2) r2 show ?thesis by blast
  qed
  then show ?thesis using assms unfolding grows_def by auto
qed

lemma collapse_length [simp]: "length (fst (collapse ns n)) = length ns"
  by (simp add: collapse_def Let_def)

lemma collapse_nth:
  "k < length ns \<Longrightarrow> fst (collapse ns n) ! k =
     (if k = n then (ns ! n)\<lparr>n_size := 0, n_types := [], n_flags := insert Folded (n_flags (ns ! n)),
                 n_edges := (case n_edges (ns ! n) of [] \<Rightarrow> [] | e # es \<Rightarrow> [(0, snd e)])\<rparr>
      else ns ! k)"
  by (simp add: collapse_def Let_def)

lemma collapse_edges: "tgts (case E of [] \<Rightarrow> [] | e # es \<Rightarrow> [(0, snd e)]) \<subseteq> tgts E"
  by (cases E) (auto simp: tgts_def)

lemma collapse_pairs: "pairsFrom (tgts (n_edges (ns ! n))) (snd (collapse ns n))"
  by (cases "n_edges (ns ! n)") (auto simp: collapse_def Let_def pairsFrom_def tgts_def)

lemma linkEdge_tgts:
  assumes "tgts (fst acc) \<subseteq> T" "pairsFrom T (snd acc)" "snd e \<in> T"
  shows "tgts (fst (linkEdge key e acc)) \<subseteq> T \<and> pairsFrom T (snd (linkEdge key e acc))"
proof (cases "map_of (fst acc) (key (fst e))")
  case None
  then show ?thesis using assms by (auto simp: linkEdge_def tgts_def pairsFrom_def)
next
  case (Some h')
  then have "(key (fst e), h') \<in> set (fst acc)" by (rule map_of_SomeD)
  then have "h' \<in> T" using assms(1) by (force simp: tgts_def)
  then show ?thesis using Some assms by (auto simp: linkEdge_def pairsFrom_def)
qed

lemma fold_linkEdge_tgts:
  assumes "tgts (fst acc) \<subseteq> T" "pairsFrom T (snd acc)" "tgts es \<subseteq> T"
  shows "tgts (fst (fold (linkEdge key) es acc)) \<subseteq> T \<and> pairsFrom T (snd (fold (linkEdge key) es acc))"
  using assms
proof (induction es arbitrary: acc)
  case Nil
  then show ?case by simp
next
  case (Cons e es)
  have e: "snd e \<in> T" using Cons.prems(3) by (auto simp: tgts_def)
  have t: "tgts es \<subseteq> T" using Cons.prems(3) by (auto simp: tgts_def)
  from linkEdge_tgts[OF Cons.prems(1) Cons.prems(2) e, of key]
  show ?case using Cons.IH[OF _ _ t] by simp
qed

lemma unify_shape_aux:
  assumes "r < length ns" "s < length ns" "r \<noteq> s"
  defines "R \<equiv> ns ! r" and "S \<equiv> ns ! s"
  assumes R2: "n_forward R2 = n_forward R"
      "set (n_globals R2) = set (n_globals R) \<union> set (n_globals S)"
      "n_flags R \<subseteq> n_flags R2"
      "tgts (n_edges R2) \<subseteq> tgts (n_edges R) \<union> tgts (n_edges S)"
    and S': "n_forward S' = Some (r, d)" "n_globals S' = []" "n_edges S' = []"
    and P: "pairsFrom (tgts (n_edges R) \<union> tgts (n_edges S)) P"
    and FP: "FP = (if c then collapse (ns[r := R2, s := S']) r else (ns[r := R2, s := S'], []))"
  shows "unifyShape ns r s (fst FP) (P @ snd FP)"
proof -
  let ?ns1 = "ns[r := R2, s := S']"
  have n1: "?ns1 ! r = R2" "?ns1 ! s = S'" "length ?ns1 = length ns"
    using assms(1,2,3) by simp_all
  have o1: "\<And>k. k < length ns \<Longrightarrow> k \<noteq> r \<Longrightarrow> k \<noteq> s \<Longrightarrow> ?ns1 ! k = ns ! k" by simp
  show ?thesis
  proof (cases c)
    case False
    then have "fst FP = ?ns1" "snd FP = []" using FP by simp_all
    then show ?thesis
      unfolding unifyShape_def using n1 o1 R2 S' P assms(1,2,3) by (simp add: R_def S_def)
  next
    case True
    then have f: "fst FP = fst (collapse ?ns1 r)" "snd FP = snd (collapse ?ns1 r)" using FP by simp_all
    have cr: "fst FP ! r = R2\<lparr>n_size := 0, n_types := [], n_flags := insert Folded (n_flags R2),
                 n_edges := (case n_edges R2 of [] \<Rightarrow> [] | e # es \<Rightarrow> [(0, snd e)])\<rparr>"
      unfolding f using assms(1) n1 by (simp add: collapse_nth)
    have cs: "fst FP ! s = S'" unfolding f using assms(2,3) n1 by (simp add: collapse_nth)
    have co: "\<And>k. k < length ns \<Longrightarrow> k \<noteq> r \<Longrightarrow> k \<noteq> s \<Longrightarrow> fst FP ! k = ns ! k"
      unfolding f by (simp add: collapse_nth)
    have ce: "tgts (n_edges (fst FP ! r)) \<subseteq> tgts (n_edges R) \<union> tgts (n_edges S)"
      unfolding cr using collapse_edges[of "n_edges R2"] R2(4) by auto
    have cp: "pairsFrom (tgts (n_edges R) \<union> tgts (n_edges S)) (snd FP)"
      unfolding f using collapse_pairs[of ?ns1 r] n1(1) R2(4) by (auto simp: pairsFrom_def)
    have pp: "pairsFrom (tgts (n_edges R) \<union> tgts (n_edges S)) (P @ snd FP)"
      using P cp by (auto simp: pairsFrom_def)
    have l: "length (fst FP) = length ns" unfolding f by simp
    show ?thesis
      unfolding unifyShape_def using l co cs S' ce pp R2 cr
      by (auto simp: R_def S_def)
  qed
qed

lemma unify_shape_rs:
  assumes "r < length ns" "s < length ns" "r \<noteq> s"
    and hr: "fst hr = r" and hs: "fst hs = s"
    and sel: "(if n_size (ns ! fst h1) < n_size (ns ! fst h2) then h2 else h1) = hr"
             "(if n_size (ns ! fst h1) < n_size (ns ! fst h2) then h1 else h2) = hs"
  shows "unifyShape ns r s (fst (unify ns h1 h2)) (snd (unify ns h1 h2))"
proof -
  define d where "d = snd hr - snd hs"
  define R where "R = ns ! r"
  define S where "S = ns ! s"
  define conflict where "conflict = list_ex (typeConflict (n_types R)) (shiftTypes d (n_types S))"
  define grow where "grow = (int (n_size R) < int (n_size S) + d \<and> Array \<notin> n_flags R \<and> Array \<notin> n_flags S)"
  define R1 where "R1 = R\<lparr>n_size := (if grow then nat (int (n_size S) + d) else n_size R),
                 n_types := n_types R @ filter (\<lambda>e. e \<notin> set (n_types R)) (shiftTypes d (n_types S)),
                 n_flags := n_flags R \<union> n_flags S,
                 n_globals := n_globals R @ filter (\<lambda>g. g \<notin> set (n_globals R)) (n_globals S)\<rparr>"
  define EP where "EP = fold (linkEdge (\<lambda>off. normOffset R1 (off + d))) (n_edges S) (n_edges R, [])"
  define R2 where "R2 = R1\<lparr>n_edges := fst EP\<rparr>"
  define S' where "S' = S\<lparr>n_types := [], n_edges := [], n_globals := [], n_forward := Some (r, d)\<rparr>"
  define FP where "FP = (if conflict \<or> Folded \<in> n_flags R2 then collapse (ns[r := R2, s := S']) r
                         else (ns[r := R2, s := S'], []))"
  have u: "unify ns h1 h2 = (fst FP, snd EP @ snd FP)"
    unfolding unify_def sel Let_def hr hs
    unfolding FP_def R2_def S'_def EP_def R1_def grow_def conflict_def R_def S_def d_def
    by simp
  have ep: "tgts (fst EP) \<subseteq> tgts (n_edges R) \<union> tgts (n_edges S)
            \<and> pairsFrom (tgts (n_edges R) \<union> tgts (n_edges S)) (snd EP)"
    unfolding EP_def
    by (rule fold_linkEdge_tgts) (auto simp: pairsFrom_def)
  have "unifyShape ns r s (fst FP) (snd EP @ snd FP)"
  proof (rule unify_shape_aux[OF assms(1,2,3), where ?R2.0 = R2 and S' = S' and d = d
          and c = "conflict \<or> Folded \<in> n_flags R2"])
    show "n_forward R2 = n_forward (ns ! r)" by (simp add: R2_def R1_def R_def)
    show "set (n_globals R2) = set (n_globals (ns ! r)) \<union> set (n_globals (ns ! s))"
      by (auto simp: R2_def R1_def R_def S_def)
    show "n_flags (ns ! r) \<subseteq> n_flags R2" by (auto simp: R2_def R1_def R_def)
    show "tgts (n_edges R2) \<subseteq> tgts (n_edges (ns ! r)) \<union> tgts (n_edges (ns ! s))"
      using ep by (simp add: R2_def R_def S_def)
    show "n_forward S' = Some (r, d)" "n_globals S' = []" "n_edges S' = []"
      by (simp_all add: S'_def)
    show "pairsFrom (tgts (n_edges (ns ! r)) \<union> tgts (n_edges (ns ! s))) (snd EP)"
      using ep by (simp add: R_def S_def)
    show "FP = (if conflict \<or> Folded \<in> n_flags R2 then collapse (ns[r := R2, s := S']) r
                else (ns[r := R2, s := S'], []))"
      by (rule FP_def)
  qed
  then show ?thesis unfolding u by simp
qed

lemma unify_shape:
  assumes "fst h1 < length ns" "fst h2 < length ns" "fst h1 \<noteq> fst h2"
  shows "\<exists>r s. ((r = fst h1 \<and> s = fst h2) \<or> (r = fst h2 \<and> s = fst h1))
               \<and> unifyShape ns r s (fst (unify ns h1 h2)) (snd (unify ns h1 h2))"
proof (cases "n_size (ns ! fst h1) < n_size (ns ! fst h2)")
  case True
  have "unifyShape ns (fst h2) (fst h1) (fst (unify ns h1 h2)) (snd (unify ns h1 h2))"
    by (rule unify_shape_rs[where hr = h2 and hs = h1]) (use assms True in auto)
  then show ?thesis by blast
next
  case False
  have "unifyShape ns (fst h1) (fst h2) (fst (unify ns h1 h2)) (snd (unify ns h1 h2))"
    by (rule unify_shape_rs[where hr = h1 and hs = h2]) (use assms False in auto)
  then show ?thesis by blast
qed

lemma mu_nth: "mu ns = (\<Sum>k = 0 ..< length ns. weight (ns ! k))"
  unfolding mu_def by (simp add: sum_list_sum_nth)

lemma mu_less:
  assumes "length ns' = length ns"
    "\<forall>k < length ns. weight (ns' ! k) \<le> weight (ns ! k)"
    "s < length ns" "weight (ns' ! s) < weight (ns ! s)"
  shows "mu ns' < mu ns"
  unfolding mu_nth assms(1)
  by (rule sum_strict_mono_ex1) (use assms in auto)

lemma allGlobals_nth: "allGlobals ns = (\<Union>k \<in> {..< length ns}. set (n_globals (ns ! k)))"
  unfolding allGlobals_def set_conv_nth[of ns] by auto

lemma wfStore_edges:
  "wfStore ns \<Longrightarrow> k < length ns \<Longrightarrow> h \<in> tgts (n_edges (ns ! k)) \<Longrightarrow> fst h < length ns"
  by (auto simp: wfStore_def tgts_def)

lemma unifyShape_step:
  assumes wf: "wfStore ns"
    and r: "r < length ns" "n_forward (ns ! r) = None"
    and s: "s < length ns" "n_forward (ns ! s) = None"
    and rs: "r \<noteq> s"
    and sh: "unifyShape ns r s ns' P"
  shows "wfStore ns' \<and> grows ns ns' \<and> pairsIn ns' P \<and> mu ns' < mu ns"
proof -
  from sh have len: "length ns' = length ns"
    and oth: "\<And>k. k < length ns \<Longrightarrow> k \<noteq> r \<Longrightarrow> k \<noteq> s \<Longrightarrow> ns' ! k = ns ! k"
    and gs: "n_globals (ns' ! s) = []" and es: "n_edges (ns' ! s) = []"
    and fr: "n_forward (ns' ! r) = n_forward (ns ! r)"
    and gr: "set (n_globals (ns' ! r)) = set (n_globals (ns ! r)) \<union> set (n_globals (ns ! s))"
    and flr: "n_flags (ns ! r) \<subseteq> n_flags (ns' ! r)"
    and er: "tgts (n_edges (ns' ! r)) \<subseteq> tgts (n_edges (ns ! r)) \<union> tgts (n_edges (ns ! s))"
    and pf: "pairsFrom (tgts (n_edges (ns ! r)) \<union> tgts (n_edges (ns ! s))) P"
    unfolding unifyShape_def by auto
  from sh obtain d where fs: "n_forward (ns' ! s) = Some (r, d)" unfolding unifyShape_def by auto
  have fo: "\<forall>k < length ns. k \<noteq> s \<longrightarrow> n_forward (ns' ! k) = n_forward (ns ! k)"
    using oth fr by (metis)
  have T: "\<And>h. h \<in> tgts (n_edges (ns ! r)) \<union> tgts (n_edges (ns ! s)) \<Longrightarrow> fst h < length ns"
    using wfStore_edges[OF wf] r(1) s(1) by blast
  have link: "\<And>n x. reaches ns n x \<Longrightarrow> reaches ns' n (if x = s then r else x)"
    by (rule reaches_link[where d = d]) (use len r s rs fs fo in auto)
  have w': "wfStore ns'"
    unfolding wfStore_def
  proof (intro allI impI conjI)
    fix n assume n: "n < length ns'"
    then obtain x where "reaches ns n x" using wf len by (auto simp: wfStore_def)
    then show "\<exists>r. reaches ns' n r" using link by blast
    show "\<forall>e \<in> set (n_edges (ns' ! n)). fst (snd e) < length ns'"
    proof (cases "n = r \<or> n = s")
      case True
      show ?thesis
      proof
        fix e assume "e \<in> set (n_edges (ns' ! n))"
        then have "snd e \<in> tgts (n_edges (ns' ! n))" by (simp add: tgts_def)
        then have "snd e \<in> tgts (n_edges (ns ! r)) \<union> tgts (n_edges (ns ! s))"
          using True es er by (auto simp: tgts_def)
        then show "fst (snd e) < length ns'" using T len by simp
      qed
    next
      case False
      then have "ns' ! n = ns ! n" using oth n len by simp
      then show ?thesis using wf n len by (auto simp: wfStore_def)
    qed
  qed
  have ag: "allGlobals ns' \<subseteq> allGlobals ns"
  proof
    fix g assume "g \<in> allGlobals ns'"
    then obtain k where k: "k < length ns" "g \<in> set (n_globals (ns' ! k))"
      unfolding allGlobals_nth len by auto
    have "\<exists>k' < length ns. g \<in> set (n_globals (ns ! k'))"
    proof (cases "k = r")
      case True
      then show ?thesis using k gr r(1) s(1) by auto
    next
      case False
      then have "k \<noteq> s" using k gs by auto
      then show ?thesis using k oth False by auto
    qed
    then show "g \<in> allGlobals ns" unfolding allGlobals_nth by auto
  qed
  have gm: "\<exists>r'. reaches ns' n r' \<and> set (n_globals (ns ! x)) \<subseteq> set (n_globals (ns' ! r'))"
    if "reaches ns n x" for n x
  proof -
    have a: "reaches ns' n (if x = s then r else x)" using that by (rule link)
    have xl: "x < length ns" using reaches_lt[OF that] by simp
    have "set (n_globals (ns ! x)) \<subseteq> set (n_globals (ns' ! (if x = s then r else x)))"
    proof (cases "x = s \<or> x = r")
      case True
      then show ?thesis using gr by auto
    next
      case False
      then show ?thesis using oth xl by simp
    qed
    with a show ?thesis by blast
  qed
  have g: "grows ns ns'" unfolding grows_def using len ag gm by blast
  have p: "pairsIn ns' P" using pf T len by (auto simp: pairsIn_def pairsFrom_def)
  have wr: "weight (ns' ! r) \<le> weight (ns ! r)" using fr flr r(2) by (auto simp: weight_def)
  have ws: "weight (ns' ! s) < weight (ns ! s)" using fs s(2) by (auto simp: weight_def)
  have "\<forall>k < length ns. weight (ns' ! k) \<le> weight (ns ! k)"
  proof (intro allI impI)
    fix k assume "k < length ns"
    then show "weight (ns' ! k) \<le> weight (ns ! k)"
      using wr ws oth by (cases "k = r"; cases "k = s") auto
  qed
  with len have m: "mu ns' < mu ns" using s(1) ws by (rule mu_less)
  show ?thesis using w' g p m by simp
qed

lemma fold_step:
  assumes wf: "wfStore ns"
    and n: "n < length ns" "n_forward (ns ! n) = None" "Folded \<notin> n_flags (ns ! n)"
  shows "wfStore (fst (foldNodeCompletely ns n)) \<and> grows ns (fst (foldNodeCompletely ns n))
         \<and> pairsIn (fst (foldNodeCompletely ns n)) (snd (foldNodeCompletely ns n))
         \<and> mu (fst (foldNodeCompletely ns n)) < mu ns"
proof -
  let ?ns' = "fst (collapse ns n)"
  have e: "foldNodeCompletely ns n = collapse ns n" using n(3) by (simp add: foldNodeCompletely_def)
  have len: "length ?ns' = length ns" by simp
  have nth: "\<And>k. k < length ns \<Longrightarrow> ?ns' ! k =
     (if k = n then (ns ! n)\<lparr>n_size := 0, n_types := [], n_flags := insert Folded (n_flags (ns ! n)),
                 n_edges := (case n_edges (ns ! n) of [] \<Rightarrow> [] | e # es \<Rightarrow> [(0, snd e)])\<rparr>
      else ns ! k)"
    by (rule collapse_nth)
  have fo: "\<forall>k < length ns. n_forward (?ns' ! k) = n_forward (ns ! k)" using nth by simp
  have go: "\<forall>k < length ns. n_globals (?ns' ! k) = n_globals (ns ! k)" using nth by simp
  have same: "\<And>m x. reaches ns m x \<Longrightarrow> reaches ?ns' m x"
    by (rule reaches_same_forward) (use len fo in auto)
  have T: "\<And>h. h \<in> tgts (n_edges (ns ! n)) \<Longrightarrow> fst h < length ns"
    using wfStore_edges[OF wf n(1)] by blast
  have w': "wfStore ?ns'"
    unfolding wfStore_def
  proof (intro allI impI conjI)
    fix k assume k: "k < length ?ns'"
    then obtain x where "reaches ns k x" using wf by (auto simp: wfStore_def)
    then show "\<exists>r. reaches ?ns' k r" using same by blast
    show "\<forall>e \<in> set (n_edges (?ns' ! k)). fst (snd e) < length ?ns'"
    proof (cases "k = n")
      case True
      have sub: "tgts (n_edges (?ns' ! n)) \<subseteq> tgts (n_edges (ns ! n))"
        using nth[OF n(1)] collapse_edges[of "n_edges (ns ! n)"] by simp
      show ?thesis
      proof
        fix e assume "e \<in> set (n_edges (?ns' ! k))"
        then have "snd e \<in> tgts (n_edges (?ns' ! n))" using True by (simp add: tgts_def)
        then have "snd e \<in> tgts (n_edges (ns ! n))" using sub by blast
        then show "fst (snd e) < length ?ns'" using T by simp
      qed
    next
      case False
      then have "?ns' ! k = ns ! k" using nth k by simp
      then show ?thesis using wf k by (auto simp: wfStore_def)
    qed
  qed
  have ag: "allGlobals ?ns' \<subseteq> allGlobals ns"
    unfolding allGlobals_nth len using go by auto
  have gm: "\<exists>r'. reaches ?ns' m r' \<and> set (n_globals (ns ! x)) \<subseteq> set (n_globals (?ns' ! r'))"
    if "reaches ns m x" for m x
  proof -
    have "x < length ns" using reaches_lt[OF that] by simp
    then have "n_globals (?ns' ! x) = n_globals (ns ! x)" using go by simp
    then show ?thesis using same[OF that] by auto
  qed
  have g: "grows ns ?ns'" unfolding grows_def using len ag gm by blast
  have p: "pairsIn ?ns' (snd (collapse ns n))"
    using collapse_pairs[of ns n] T by (auto simp: pairsIn_def pairsFrom_def)
  have wn: "weight (?ns' ! n) < weight (ns ! n)"
    using nth[OF n(1)] n(2,3) by (simp add: weight_def)
  have "\<forall>k < length ns. weight (?ns' ! k) \<le> weight (ns ! k)"
  proof (intro allI impI)
    fix k assume "k < length ns"
    then show "weight (?ns' ! k) \<le> weight (ns ! k)"
      using wn nth by (cases "k = n") auto
  qed
  with len have m: "mu ?ns' < mu ns" using n(1) wn by (rule mu_less)
  show ?thesis unfolding e using w' g p m by simp
qed

lemma pairsIn_length: "length ns' = length ns \<Longrightarrow> pairsIn ns' wl = pairsIn ns wl"
  by (simp add: pairsIn_def)

lemma pairsIn_append: "pairsIn ns (a @ b) \<longleftrightarrow> pairsIn ns a \<and> pairsIn ns b"
  by (auto simp: pairsIn_def)

lemma grows_length: "grows ns ns' \<Longrightarrow> length ns' = length ns"
  by (simp add: grows_def)

lemma mergeLoop_Nil: "mergeLoop ns [] = Some ns"
  by (subst mergeLoop.simps) simp

lemma mergeLoop_Cons:
  "normalize ns (fst p) = Some h1 \<Longrightarrow> normalize ns (snd p) = Some h2 \<Longrightarrow>
   mergeLoop ns (p # rest) =
     (if fst h1 = fst h2
      then (if snd h1 = snd h2 then mergeLoop ns rest
            else mergeLoop (fst (foldNodeCompletely ns (fst h1)))
                   (snd (foldNodeCompletely ns (fst h1)) @ rest))
      else mergeLoop (fst (unify ns h1 h2)) (snd (unify ns h1 h2) @ rest))"
  by (subst mergeLoop.simps) simp

lemma normalize_Folded:
  "normalize ns h = Some r \<Longrightarrow> Folded \<in> n_flags (ns ! fst r) \<Longrightarrow> snd r = 0"
  by (auto simp: normalize_def normOffset_def split: option.splits)

lemma mergeLoop_total:
  assumes "wfStore ns" "pairsIn ns wl"
  shows "\<exists>ns'. mergeLoop ns wl = Some ns' \<and> wfStore ns' \<and> grows ns ns'"
  using assms
proof (induction "mu ns" arbitrary: ns wl rule: less_induct)
  case less
  show ?case using less.prems(2)
  proof (induction wl)
    case Nil
    then show ?case using less.prems(1) by (simp add: mergeLoop_Nil grows_refl)
  next
    case (Cons p rest)
    have pr: "pairsIn ns rest" and pp: "fst (fst p) < length ns" "fst (snd p) < length ns"
      using Cons.prems by (auto simp: pairsIn_def)
    from wf_normalize[OF less.prems(1) pp(1)] obtain h1 where
      h1: "normalize ns (fst p) = Some h1" "reaches ns (fst (fst p)) (fst h1)" by blast
    from wf_normalize[OF less.prems(1) pp(2)] obtain h2 where
      h2: "normalize ns (snd p) = Some h2" "reaches ns (fst (snd p)) (fst h2)" by blast
    note r1 = reaches_lt[OF h1(2)] and r2 = reaches_lt[OF h2(2)]
    note eq = mergeLoop_Cons[OF h1(1) h2(1), of rest]
    show ?case
    proof (cases "fst h1 = fst h2")
      case same: True
      show ?thesis
      proof (cases "snd h1 = snd h2")
        case True
        then show ?thesis using eq same Cons.IH[OF pr] by simp
      next
        case False
        have nf: "Folded \<notin> n_flags (ns ! fst h1)"
          using normalize_Folded[OF h1(1)] normalize_Folded[OF h2(1)] same False by auto
        let ?ns1 = "fst (foldNodeCompletely ns (fst h1))"
        let ?P = "snd (foldNodeCompletely ns (fst h1))"
        from fold_step[OF less.prems(1) _ _ nf] r1
        have st: "wfStore ?ns1" "grows ns ?ns1" "pairsIn ?ns1 ?P" "mu ?ns1 < mu ns" by auto
        have "pairsIn ?ns1 (?P @ rest)"
          using st(3) pr pairsIn_length[OF grows_length[OF st(2)]] by (simp add: pairsIn_append)
        from less.hyps[OF st(4) st(1) this] obtain ns' where
          "mergeLoop ?ns1 (?P @ rest) = Some ns'" "wfStore ns'" "grows ?ns1 ns'" by blast
        then show ?thesis using eq same False grows_trans[OF st(2)] by auto
      qed
    next
      case diff: False
      let ?ns1 = "fst (unify ns h1 h2)"
      let ?P = "snd (unify ns h1 h2)"
      from unify_shape[of h1 ns h2] r1 r2 diff obtain r s where
        rs: "(r = fst h1 \<and> s = fst h2) \<or> (r = fst h2 \<and> s = fst h1)"
        and sh: "unifyShape ns r s ?ns1 ?P" by auto
      have "wfStore ?ns1 \<and> grows ns ?ns1 \<and> pairsIn ?ns1 ?P \<and> mu ?ns1 < mu ns"
        by (rule unifyShape_step[OF less.prems(1) _ _ _ _ _ sh]) (use rs r1 r2 diff in auto)
      then have st: "wfStore ?ns1" "grows ns ?ns1" "pairsIn ?ns1 ?P" "mu ?ns1 < mu ns" by auto
      have "pairsIn ?ns1 (?P @ rest)"
        using st(3) pr pairsIn_length[OF grows_length[OF st(2)]] by (simp add: pairsIn_append)
      from less.hyps[OF st(4) st(1) this] obtain ns' where
        "mergeLoop ?ns1 (?P @ rest) = Some ns'" "wfStore ns'" "grows ?ns1 ns'" by blast
      then show ?thesis using eq diff grows_trans[OF st(2)] by auto
    qed
  qed
qed

section \<open>Properties of the graph operations\<close>

lemma foldO_inv:
  assumes step: "\<And>x s. x \<in> set xs \<Longrightarrow> I s \<Longrightarrow> \<exists>s'. f x s = Some s' \<and> I s' \<and> R s s'"
    and "I s" and refl: "\<And>s. R s s" and trans: "\<And>a b c. R a b \<Longrightarrow> R b c \<Longrightarrow> R a c"
  shows "\<exists>s'. foldO f xs s = Some s' \<and> I s' \<and> R s s'"
  using assms(1,2)
proof (induction xs arbitrary: s)
  case Nil
  then show ?case using refl by simp
next
  case (Cons x xs)
  from Cons.prems(1)[of x s] Cons.prems(2) obtain s1 where
    s1: "f x s = Some s1" "I s1" "R s s1" by auto
  have "\<exists>s'. foldO f xs s1 = Some s' \<and> I s' \<and> R s1 s'"
    by (rule Cons.IH) (use Cons.prems(1) s1(2) in auto)
  then obtain s' where "foldO f xs s1 = Some s'" "I s'" "R s1 s'" by blast
  then show ?case using s1 trans by auto
qed

lemma merge_total:
  assumes "wfStore ns" "fst h1 < length ns" "fst h2 < length ns"
  shows "\<exists>ns'. merge ns h1 h2 = Some ns' \<and> wfStore ns' \<and> grows ns ns'"
  unfolding merge_def
  by (rule mergeLoop_total) (use assms in \<open>auto simp: pairsIn_def\<close>)

lemma merges_total:
  assumes "wfStore ns" "pairsIn ns ps"
  shows "\<exists>ns'. foldO (\<lambda>p ns. merge ns (fst p) (snd p)) ps ns = Some ns'
               \<and> (wfStore ns' \<and> length ns' = length ns) \<and> grows ns ns'"
proof (rule foldO_inv[where I = "\<lambda>s. wfStore s \<and> length s = length ns" and R = grows])
  fix p s assume p: "p \<in> set ps" and s: "wfStore s \<and> length s = length ns"
  then have "fst (fst p) < length s" "fst (snd p) < length s"
    using assms(2) by (auto simp: pairsIn_def)
  from merge_total[OF _ this] s obtain s' where
    "merge s (fst p) (snd p) = Some s'" "wfStore s'" "grows s s'" by blast
  then show "\<exists>s'. merge s (fst p) (snd p) = Some s' \<and> (wfStore s' \<and> length s' = length ns) \<and> grows s s'"
    using s grows_length by auto
next
  show "wfStore ns \<and> length ns = length ns" using assms(1) by simp
next
  show "\<And>s. grows s s" by (rule grows_refl)
next
  show "\<And>a b c. grows a b \<Longrightarrow> grows b c \<Longrightarrow> grows a c" by (rule grows_trans)
qed

lemma evolves_refl: "evolves G G"
  by (simp add: evolves_def grows_refl)

lemma evolves_trans: "evolves a b \<Longrightarrow> evolves b c \<Longrightarrow> evolves a c"
  unfolding evolves_def
  by (metis (no_types, lifting) dsgraph.surjective dsgraph.update_convs(1) grows_trans)

lemma evolves_fields:
  "evolves G G' \<Longrightarrow> ScalarMap G' = ScalarMap G \<and> ReturnNodes G' = ReturnNodes G
     \<and> VANodes G' = VANodes G \<and> FunctionCalls G' = FunctionCalls G
     \<and> AuxFunctionCalls G' = AuxFunctionCalls G \<and> graphHandles G' = graphHandles G
     \<and> length (g_nodes G') = length (g_nodes G)"
  unfolding evolves_def
  by (metis (no_types, lifting) dsgraph.select_convs(2-6) dsgraph.surjective dsgraph.update_convs(1)
      graphHandles_def grows_length)

lemma mergeHandles_total:
  assumes "wfGraph G" "pairsIn (g_nodes G) ps"
  shows "\<exists>G'. mergeHandles ps G = Some G' \<and> wfGraph G' \<and> evolves G G'"
proof -
  from assms have w: "wfStore (g_nodes G)" by (simp add: wfGraph_def)
  from merges_total[OF w assms(2)] obtain ns' where
    ns': "foldO (\<lambda>p ns. merge ns (fst p) (snd p)) ps (g_nodes G) = Some ns'"
    "wfStore ns'" "length ns' = length (g_nodes G)" "grows (g_nodes G) ns'" by blast
  let ?G' = "G\<lparr>g_nodes := ns'\<rparr>"
  have m: "mergeHandles ps G = Some ?G'" using ns'(1) by (simp add: mergeHandles_def)
  have e: "evolves G ?G'" using ns'(4) by (simp add: evolves_def)
  have "graphHandles ?G' = graphHandles G" by (simp add: graphHandles_def)
  then have "wfGraph ?G'" using assms(1) ns'(2,3) by (simp add: wfGraph_def)
  then show ?thesis using m e by blast
qed

lemma pairsFrom_append: "pairsFrom T (a @ b) \<longleftrightarrow> pairsFrom T a \<and> pairsFrom T b"
  by (auto simp: pairsFrom_def)

lemma pairsFrom_concat: "(\<And>x. x \<in> set xs \<Longrightarrow> pairsFrom T (f x)) \<Longrightarrow> pairsFrom T (concat (map f xs))"
  by (auto simp: pairsFrom_def)

lemma pairsFrom_optPair:
  "set_option a \<subseteq> T \<Longrightarrow> set_option b \<subseteq> T \<Longrightarrow> pairsFrom T (optPair a b)"
  by (auto simp: optPair_def pairsFrom_def split: option.splits)

lemma pairsFrom_zip:
  assumes "set xs \<subseteq> T" "set ys \<subseteq> T"
  shows "pairsFrom T (zip xs ys)"
  unfolding pairsFrom_def
proof
  fix p assume p: "p \<in> set (zip xs ys)"
  obtain a b where ab: "p = (a, b)" by (cases p)
  have "a \<in> set xs" using p ab by (auto dest: set_zip_leftD)
  moreover have "b \<in> set ys" using p ab by (auto dest: set_zip_rightD)
  ultimately show "fst p \<in> T \<and> snd p \<in> T" using assms ab by auto
qed

lemma map_of_snd: "map_of xs k = Some h \<Longrightarrow> h \<in> snd ` set xs"
proof -
  assume "map_of xs k = Some h"
  then have "(k, h) \<in> set xs" by (rule map_of_SomeD)
  then have "snd (k, h) \<in> snd ` set xs" by (rule imageI)
  then show ?thesis by simp
qed

lemma map_of_handles:
  "map_of (ScalarMap G) k = Some h \<Longrightarrow> h \<in> graphHandles G"
  "map_of (ReturnNodes G) f = Some h \<Longrightarrow> h \<in> graphHandles G"
  "map_of (VANodes G) f = Some h \<Longrightarrow> h \<in> graphHandles G"
  using map_of_snd[of "ScalarMap G" k h] map_of_snd[of "ReturnNodes G" f h]
    map_of_snd[of "VANodes G" f h]
  by (simp_all add: graphHandles_def)

lemma formalHandles_sub: "set (formalHandles G F) \<subseteq> graphHandles G"
  by (auto simp: formalHandles_def map_of_handles split: option.splits)

lemma callHandles_sub: "CS \<in> set (FunctionCalls G) \<Longrightarrow> callHandles CS \<subseteq> graphHandles G"
  by (auto simp: graphHandles_def)

lemma callMerges_from:
  assumes "CS \<in> set (FunctionCalls G)"
  shows "pairsFrom (graphHandles G) (callMerges G CS F)"
proof -
  let ?T = "graphHandles G"
  have ch: "callHandles CS \<subseteq> ?T" using assms by (rule callHandles_sub)
  then have c: "set_option (dcs_ret CS) \<subseteq> ?T" "set_option (dcs_va CS) \<subseteq> ?T" "set (dcs_args CS) \<subseteq> ?T"
    by (auto simp: callHandles_def)
  have r: "set_option (map_of (ReturnNodes G) (fn_name F)) \<subseteq> ?T"
    "set_option (map_of (VANodes G) (fn_name F)) \<subseteq> ?T"
    by (auto simp: map_of_handles)
  have f: "set (formalHandles G F) \<subseteq> ?T" by (rule formalHandles_sub)
  have v: "set_option (case map_of (VANodes G) (fn_name F) of None \<Rightarrow> dcs_va CS | Some h \<Rightarrow> Some h) \<subseteq> ?T"
    using c(2) r(2) by (auto split: option.splits)
  have d1: "set (drop (length (formalHandles G F)) (dcs_args CS)) \<subseteq> ?T"
    using c(3) by (meson in_set_dropD subset_code(1))
  have d2: "set (drop (length (dcs_args CS)) (formalHandles G F)) \<subseteq> ?T"
    using f by (meson in_set_dropD subset_code(1))
  have p1: "pairsFrom ?T (optPair (map_of (ReturnNodes G) (fn_name F)) (dcs_ret CS))"
    using r(1) c(1) by (rule pairsFrom_optPair)
  have p2: "pairsFrom ?T (optPair (map_of (VANodes G) (fn_name F)) (dcs_va CS))"
    using r(2) c(2) by (rule pairsFrom_optPair)
  have p3: "pairsFrom ?T (zip (formalHandles G F) (dcs_args CS))"
    using f c(3) by (rule pairsFrom_zip)
  have p4: "pairsFrom ?T (concat (map (\<lambda>h. optPair (case map_of (VANodes G) (fn_name F) of None \<Rightarrow> dcs_va CS | Some h \<Rightarrow> Some h) (Some h))
                 (drop (length (formalHandles G F)) (dcs_args CS))))"
  proof (rule pairsFrom_concat)
    fix x assume "x \<in> set (drop (length (formalHandles G F)) (dcs_args CS))"
    then have "set_option (Some x) \<subseteq> ?T" using d1 by auto
    with v show "pairsFrom ?T (optPair (case map_of (VANodes G) (fn_name F) of None \<Rightarrow> dcs_va CS | Some h \<Rightarrow> Some h) (Some x))"
      by (rule pairsFrom_optPair)
  qed
  have p5: "pairsFrom ?T (concat (map (\<lambda>h. optPair (case map_of (VANodes G) (fn_name F) of None \<Rightarrow> dcs_va CS | Some h \<Rightarrow> Some h) (Some h))
                 (drop (length (dcs_args CS)) (formalHandles G F))))"
  proof (rule pairsFrom_concat)
    fix x assume "x \<in> set (drop (length (dcs_args CS)) (formalHandles G F))"
    then have "set_option (Some x) \<subseteq> ?T" using d2 by auto
    with v show "pairsFrom ?T (optPair (case map_of (VANodes G) (fn_name F) of None \<Rightarrow> dcs_va CS | Some h \<Rightarrow> Some h) (Some x))"
      by (rule pairsFrom_optPair)
  qed
  show ?thesis
    unfolding callMerges_def Let_def pairsFrom_append
    using p1 p2 p3 p4 p5 by simp
qed

lemma pairsFrom_In:
  "wfGraph G \<Longrightarrow> pairsFrom (graphHandles G) P \<Longrightarrow> pairsIn (g_nodes G) P"
  by (auto simp: wfGraph_def pairsFrom_def pairsIn_def)

lemma mergeInGraph_total:
  assumes "wfGraph G" "CS \<in> set (FunctionCalls G)"
  shows "\<exists>G'. mergeInGraph G CS F = Some G' \<and> wfGraph G' \<and> evolves G G'"
  unfolding mergeInGraph_def
  by (rule mergeHandles_total[OF assms(1) pairsFrom_In[OF assms(1) callMerges_from[OF assms(2)]]])

lemma mergeCallee_total:
  assumes "wfGraph G" "CS \<in> set (FunctionCalls G)"
  shows "\<exists>G'. mergeCallee M CS F G = Some G' \<and> wfGraph G' \<and> evolves G G'"
proof (cases "getFunction M F")
  case None
  then show ?thesis using assms(1) by (simp add: mergeCallee_def evolves_refl)
next
  case (Some I)
  show ?thesis
  proof (cases "isDeclaration I")
    case True
    then show ?thesis using Some assms(1) by (simp add: mergeCallee_def evolves_refl)
  next
    case False
    then show ?thesis using Some mergeInGraph_total[OF assms, of I] by (simp add: mergeCallee_def)
  qed
qed

lemma mergeCall_total:
  assumes "wfGraph G" "snd c \<in> set (FunctionCalls G)"
  shows "\<exists>G'. mergeCall M CG c G = Some G' \<and> (wfGraph G' \<and> FunctionCalls G' = FunctionCalls G) \<and> evolves G G'"
  unfolding mergeCall_def
proof (rule foldO_inv[where I = "\<lambda>s. wfGraph s \<and> FunctionCalls s = FunctionCalls G" and R = evolves])
  fix F s assume "wfGraph s \<and> FunctionCalls s = FunctionCalls G"
  then have s: "wfGraph s" "snd c \<in> set (FunctionCalls s)" "FunctionCalls s = FunctionCalls G"
    using assms(2) by auto
  from mergeCallee_total[OF s(1,2), of M F] obtain G' where
    "mergeCallee M (snd c) F s = Some G'" "wfGraph G'" "evolves s G'" by blast
  then show "\<exists>s'. mergeCallee M (snd c) F s = Some s' \<and> (wfGraph s' \<and> FunctionCalls s' = FunctionCalls G) \<and> evolves s s'"
    using s(3) evolves_fields by auto
next
  show "wfGraph G \<and> FunctionCalls G = FunctionCalls G" using assms(1) by simp
next
  show "\<And>s. evolves s s" by (rule evolves_refl)
next
  show "\<And>a b c. evolves a b \<Longrightarrow> evolves b c \<Longrightarrow> evolves a c" by (rule evolves_trans)
qed

lemma mergeCalls_total:
  assumes "wfGraph G"
  shows "\<exists>G'. mergeCalls M CG G = Some G' \<and> wfGraph G' \<and> evolves G G'"
proof -
  have "\<exists>G'. foldO (mergeCall M CG) (enumerate 0 (FunctionCalls G)) G = Some G'
          \<and> (wfGraph G' \<and> FunctionCalls G' = FunctionCalls G) \<and> evolves G G'"
  proof (rule foldO_inv[where I = "\<lambda>s. wfGraph s \<and> FunctionCalls s = FunctionCalls G" and R = evolves])
    fix c s assume c: "c \<in> set (enumerate 0 (FunctionCalls G))"
      and "wfGraph s \<and> FunctionCalls s = FunctionCalls G"
    then have s: "wfGraph s" "FunctionCalls s = FunctionCalls G" by auto
    have "fst c < length (FunctionCalls G) \<and> FunctionCalls G ! fst c = snd c"
      using c by (simp add: in_set_enumerate_eq)
    then have "snd c \<in> set (FunctionCalls G)" using nth_mem by metis
    then have "snd c \<in> set (FunctionCalls s)" using s(2) by simp
    from mergeCall_total[OF s(1) this, of M CG] s(2)
    show "\<exists>s'. mergeCall M CG c s = Some s' \<and> (wfGraph s' \<and> FunctionCalls s' = FunctionCalls G) \<and> evolves s s'"
      by auto
  next
    show "wfGraph G \<and> FunctionCalls G = FunctionCalls G" using assms by simp
  next
    show "\<And>s. evolves s s" by (rule evolves_refl)
  next
    show "\<And>a b c. evolves a b \<Longrightarrow> evolves b c \<Longrightarrow> evolves a c" by (rule evolves_trans)
  qed
  then show ?thesis unfolding mergeCalls_def by blast
qed

lemma set_insertFn: "set (insertFn F S) = insert F (set S)"
  by (auto simp: insertFn_def)

lemma set_fold_insertFn: "set (fold insertFn xs S) = set xs \<union> set S"
  by (induction xs arbitrary: S) (auto simp: set_insertFn)

lemma getAllCallees_char:
  assumes "wfGraph G" "CS \<in> set (FunctionCalls G)"
  shows "\<exists>X r. getAllCallees E M G CS [] = Some X \<and> calleeRep (g_nodes G) CS r
               \<and> set X = calleeSetOf E M (g_nodes G) CS r"
proof (cases "dcs_callee CS")
  case (DirectCallee F)
  then show ?thesis
    by (auto simp: getAllCallees_def calleeRep_def calleeSetOf_def set_insertFn)
next
  case (IndirectCallee h)
  have "h \<in> callHandles CS" using IndirectCallee by (simp add: callHandles_def)
  then have "h \<in> graphHandles G" using callHandles_sub[OF assms(2)] by blast
  then have hl: "fst h < length (g_nodes G)" using assms(1) by (simp add: wfGraph_def)
  have w: "wfStore (g_nodes G)" using assms(1) by (simp add: wfGraph_def)
  from wf_chase[OF w hl] obtain r where r: "chase (g_nodes G) h = Some r"
    "reaches (g_nodes G) (fst h) (fst r)" by blast
  show ?thesis
    using IndirectCallee r
    by (auto simp: getAllCallees_def calleeRep_def calleeSetOf_def Let_def
        set_fold_insertFn addFullFunctionSet_def)
qed

lemma calleeSetOf_mono:
  assumes g: "grows ns ns'"
    and r: "calleeRep ns CS r" and r': "calleeRep ns' CS r'"
  shows "calleeSetOf E M ns CS r \<subseteq> calleeSetOf E M ns' CS r'"
proof (cases "dcs_callee CS")
  case (DirectCallee F)
  then show ?thesis by (simp add: calleeSetOf_def)
next
  case (IndirectCallee h)
  then have a: "reaches ns (fst h) r" "reaches ns' (fst h) r'"
    using r r' by (simp_all add: calleeRep_def)
  from g a(1) obtain r2 where r2: "reaches ns' (fst h) r2"
    "set (n_globals (ns ! r)) \<subseteq> set (n_globals (ns' ! r2))"
    unfolding grows_def by blast
  have "r2 = r'" using r2(1) a(2) by (rule reaches_det)
  then show ?thesis using r2(2) IndirectCallee by (auto simp: calleeSetOf_def)
qed

lemma getAllCallees_mono:
  assumes "wfGraph G" "wfGraph G'" "evolves G G'" "CS \<in> set (FunctionCalls G)"
    "getAllCallees E M G CS [] = Some X" "getAllCallees E M G' CS [] = Some X'"
  shows "set X \<subseteq> set X'"
proof -
  have c': "CS \<in> set (FunctionCalls G')" using assms(3,4) evolves_fields by auto
  from getAllCallees_char[OF assms(1,4), of E M] assms(5) obtain r where
    r: "calleeRep (g_nodes G) CS r" "set X = calleeSetOf E M (g_nodes G) CS r" by auto
  from getAllCallees_char[OF assms(2) c', of E M] assms(6) obtain r' where
    r': "calleeRep (g_nodes G') CS r'" "set X' = calleeSetOf E M (g_nodes G') CS r'" by auto
  have "grows (g_nodes G) (g_nodes G')" using assms(3) by (simp add: evolves_def)
  from calleeSetOf_mono[OF this r(1) r'(1)] show ?thesis using r(2) r'(2) by simp
qed

lemma buildCallGraphFrom_char:
  assumes "\<forall>CS \<in> set Calls. getAllCallees E M G CS [] \<noteq> None"
  shows "\<exists>ch CG'. buildCallGraphFrom E M G i Calls CG changed = Some (ch, CG')
           \<and> (\<forall>j < length Calls. CG' (i + j) = getAllCallees E M G (Calls ! j) [])
           \<and> (\<forall>k. k < i \<or> i + length Calls \<le> k \<longrightarrow> CG' k = CG k)
           \<and> (ch \<longleftrightarrow> changed \<or> (\<exists>j < length Calls. set (cgLookup CG (i + j)) \<noteq> set (cgLookup CG' (i + j))))"
  using assms
proof (induction Calls arbitrary: i CG changed)
  case Nil
  then show ?case by simp
next
  case (Cons C Calls)
  from Cons.prems obtain X where X: "getAllCallees E M G C [] = Some X" by auto
  let ?CG1 = "CG(i \<mapsto> X)"
  let ?c1 = "changed \<or> \<not> (set (cgLookup CG i) = set X)"
  have "\<forall>CS \<in> set Calls. getAllCallees E M G CS [] \<noteq> None" using Cons.prems by simp
  from Cons.IH[OF this, of "Suc i" ?CG1 ?c1] obtain ch CG' where
    b: "buildCallGraphFrom E M G (Suc i) Calls ?CG1 ?c1 = Some (ch, CG')"
    and v: "\<forall>j < length Calls. CG' (Suc i + j) = getAllCallees E M G (Calls ! j) []"
    and o: "\<forall>k. k < Suc i \<or> Suc i + length Calls \<le> k \<longrightarrow> CG' k = ?CG1 k"
    and c: "ch \<longleftrightarrow> ?c1 \<or> (\<exists>j < length Calls. set (cgLookup ?CG1 (Suc i + j)) \<noteq> set (cgLookup CG' (Suc i + j)))"
    by blast
  have e: "buildCallGraphFrom E M G i (C # Calls) CG changed = Some (ch, CG')"
    using X b by simp
  have i: "CG' i = Some X" using o by simp
  have v': "\<forall>j < length (C # Calls). CG' (i + j) = getAllCallees E M G ((C # Calls) ! j) []"
  proof (intro allI impI)
    fix j assume j: "j < length (C # Calls)"
    show "CG' (i + j) = getAllCallees E M G ((C # Calls) ! j) []"
    proof (cases j)
      case 0
      then show ?thesis using i X by simp
    next
      case (Suc j')
      then show ?thesis using v j by simp
    qed
  qed
  have o': "\<forall>k. k < i \<or> i + length (C # Calls) \<le> k \<longrightarrow> CG' k = CG k"
    using o by auto
  have l1: "\<And>j. cgLookup ?CG1 (Suc i + j) = cgLookup CG (Suc i + j)"
    by (simp add: cgLookup_def)
  have li: "cgLookup CG' i = X" using i by (simp add: cgLookup_def)
  have c': "ch \<longleftrightarrow> changed \<or> (\<exists>j < length (C # Calls). set (cgLookup CG (i + j)) \<noteq> set (cgLookup CG' (i + j)))"
  proof
    assume ch
    then consider "changed" | "set (cgLookup CG i) \<noteq> set X"
      | j where "j < length Calls" "set (cgLookup CG (Suc i + j)) \<noteq> set (cgLookup CG' (Suc i + j))"
      using c l1 by auto
    then show "changed \<or> (\<exists>j < length (C # Calls). set (cgLookup CG (i + j)) \<noteq> set (cgLookup CG' (i + j)))"
    proof cases
      case 1
      then show ?thesis by simp
    next
      case 2
      then have "0 < length (C # Calls) \<and> set (cgLookup CG (i + 0)) \<noteq> set (cgLookup CG' (i + 0))"
        using li by simp
      then show ?thesis by blast
    next
      case 3
      then have "Suc j < length (C # Calls) \<and> set (cgLookup CG (i + Suc j)) \<noteq> set (cgLookup CG' (i + Suc j))"
        by simp
      then show ?thesis by blast
    qed
  next
    assume "changed \<or> (\<exists>j < length (C # Calls). set (cgLookup CG (i + j)) \<noteq> set (cgLookup CG' (i + j)))"
    then consider "changed"
      | j where "j < length (C # Calls)" "set (cgLookup CG (i + j)) \<noteq> set (cgLookup CG' (i + j))"
      by blast
    then show ch
    proof cases
      case 1
      then show ?thesis using c by simp
    next
      case 2
      show ?thesis
      proof (cases j)
        case 0
        then show ?thesis using 2 li c by simp
      next
        case (Suc j')
        then have "j' < length Calls" "set (cgLookup ?CG1 (Suc i + j')) \<noteq> set (cgLookup CG' (Suc i + j'))"
          using 2 l1 by simp_all
        then show ?thesis using c by blast
      qed
    qed
  qed
  show ?case using e v' o' c' by blast
qed

lemma buildCallGraph_char:
  assumes "wfGraph G"
  shows "\<exists>ch CG'. buildCallGraph E M G CG = Some (ch, CG')
           \<and> (\<forall>j < length (FunctionCalls G). cgLookup CG' j = cgOf E M G j)
           \<and> (\<forall>j < length (FunctionCalls G). CG' j = getAllCallees E M G (FunctionCalls G ! j) [])
           \<and> (\<forall>k. length (FunctionCalls G) \<le> k \<longrightarrow> CG' k = CG k)
           \<and> (ch \<longleftrightarrow> (\<exists>j < length (FunctionCalls G). set (cgLookup CG j) \<noteq> set (cgLookup CG' j)))"
proof -
  have "\<forall>CS \<in> set (FunctionCalls G). getAllCallees E M G CS [] \<noteq> None"
    using getAllCallees_char[OF assms, of _ E M] by fastforce
  from buildCallGraphFrom_char[OF this, of 0 CG False] obtain ch CG' where
    b: "buildCallGraphFrom E M G 0 (FunctionCalls G) CG False = Some (ch, CG')"
    and v: "\<forall>j < length (FunctionCalls G). CG' j = getAllCallees E M G (FunctionCalls G ! j) []"
    and o: "\<forall>k. length (FunctionCalls G) \<le> k \<longrightarrow> CG' k = CG k"
    and c: "ch \<longleftrightarrow> (\<exists>j < length (FunctionCalls G). set (cgLookup CG j) \<noteq> set (cgLookup CG' j))"
    by auto
  have "\<forall>j < length (FunctionCalls G). cgLookup CG' j = cgOf E M G j"
    using v by (simp add: cgLookup_def cgOf_def)
  then show ?thesis using b v o c unfolding buildCallGraph_def by blast
qed

lemma finite_fnUniverse: "finite (fnUniverse G)"
proof -
  have a: "finite (allGlobals (g_nodes G))" by (simp add: allGlobals_def)
  have "directFns G \<subseteq> (\<lambda>C. case dcs_callee C of DirectCallee F \<Rightarrow> F | IndirectCallee h \<Rightarrow> [])
                          ` set (FunctionCalls G)"
    by (force simp: directFns_def)
  then have "finite (directFns G)" by (rule finite_surj[rotated]) simp
  with a show ?thesis by (simp add: fnUniverse_def)
qed

lemma fnUniverse_evolves: "evolves G G' \<Longrightarrow> fnUniverse G' \<subseteq> fnUniverse G"
proof -
  assume e: "evolves G G'"
  then have "allGlobals (g_nodes G') \<subseteq> allGlobals (g_nodes G)" by (simp add: evolves_def grows_def)
  moreover have "directFns G' = directFns G" using evolves_fields[OF e] by (simp add: directFns_def)
  ultimately show ?thesis by (auto simp: fnUniverse_def)
qed

lemma cgOf_universe:
  assumes "wfGraph G" "j < length (FunctionCalls G)"
  shows "set (cgOf E M G j) \<subseteq> fnUniverse G"
proof -
  let ?CS = "FunctionCalls G ! j"
  have m: "?CS \<in> set (FunctionCalls G)" using assms(2) by simp
  from getAllCallees_char[OF assms(1) m, of E M] obtain X r where
    X: "getAllCallees E M G ?CS [] = Some X" "calleeRep (g_nodes G) ?CS r"
    "set X = calleeSetOf E M (g_nodes G) ?CS r" by blast
  have "calleeSetOf E M (g_nodes G) ?CS r \<subseteq> fnUniverse G"
  proof (cases "dcs_callee ?CS")
    case (DirectCallee F)
    then have "F \<in> directFns G" using m by (auto simp: directFns_def)
    then show ?thesis using DirectCallee by (auto simp: calleeSetOf_def fnUniverse_def)
  next
    case (IndirectCallee h)
    then have "reaches (g_nodes G) (fst h) r" using X(2) by (simp add: calleeRep_def)
    then have "r < length (g_nodes G)" using reaches_lt by blast
    then have "set (n_globals (g_nodes G ! r)) \<subseteq> allGlobals (g_nodes G)"
      unfolding allGlobals_nth by blast
    then show ?thesis using IndirectCallee by (auto simp: calleeSetOf_def fnUniverse_def)
  qed
  then show ?thesis using X by (simp add: cgOf_def)
qed

lemma cgOf_mono:
  assumes "wfGraph G" "wfGraph G'" "evolves G G'" "j < length (FunctionCalls G)"
  shows "set (cgOf E M G j) \<subseteq> set (cgOf E M G' j)"
proof -
  let ?CS = "FunctionCalls G ! j"
  have m: "?CS \<in> set (FunctionCalls G)" using assms(4) by simp
  have f: "FunctionCalls G' = FunctionCalls G" using evolves_fields[OF assms(3)] by simp
  from getAllCallees_char[OF assms(1) m, of E M] obtain X where
    X: "getAllCallees E M G ?CS [] = Some X" by blast
  from getAllCallees_char[OF assms(2), of ?CS E M] m f obtain X' where
    X': "getAllCallees E M G' ?CS [] = Some X'" by auto
  from getAllCallees_mono[OF assms(1,2,3) m X X'] show ?thesis
    using X X' f by (simp add: cgOf_def)
qed

lemma cgSize_bound:
  assumes "finite U" "\<forall>j < N. set (cgLookup CG j) \<subseteq> U"
  shows "cgSize N CG \<le> N * card U"
proof -
  have "cgSize N CG \<le> (\<Sum>j = 0 ..< N. card U)"
    unfolding cgSize_def
    by (rule sum_mono) (use assms in \<open>auto intro: card_mono\<close>)
  then show ?thesis by simp
qed

lemma cgSize_less:
  assumes "\<forall>j < N. set (cgLookup CG j) \<subseteq> set (cgLookup CG' j)"
    "j < N" "set (cgLookup CG j) \<noteq> set (cgLookup CG' j)"
  shows "cgSize N CG < cgSize N CG'"
  unfolding cgSize_def
proof (rule sum_strict_mono_ex1)
  show "finite {0 ..< N}" by simp
  show "\<forall>x \<in> {0 ..< N}. card (set (cgLookup CG x)) \<le> card (set (cgLookup CG' x))"
    using assms(1) by (auto intro: card_mono)
  have "set (cgLookup CG j) \<subset> set (cgLookup CG' j)" using assms by blast
  then have "card (set (cgLookup CG j)) < card (set (cgLookup CG' j))"
    by (intro psubset_card_mono) auto
  then show "\<exists>a \<in> {0 ..< N}. card (set (cgLookup CG a)) < card (set (cgLookup CG' a))"
    using assms(2) by auto
qed

lemma steensLoop_step:
  "buildCallGraph E M G CG = Some (ch, CG') \<Longrightarrow>
   steensLoop E M (G, CG) =
     (if ch then (case mergeCalls M CG' G of None \<Rightarrow> None | Some G' \<Rightarrow> steensLoop E M (G', CG'))
      else Some (G, CG'))"
  by (subst steensLoop.simps) (simp split: option.splits)

lemma steensLoop_total_inv:
  assumes "wfGraph G" "fnUniverse G \<subseteq> U" "finite U"
    "\<forall>j < length (FunctionCalls G). set (cgLookup CG j) \<subseteq> set (cgOf E M G j)"
  shows "\<exists>s. steensLoop E M (G, CG) = Some s \<and> loopResult E M G s"
  using assms
proof (induction "length (FunctionCalls G) * card U - cgSize (length (FunctionCalls G)) CG"
    arbitrary: G CG rule: less_induct)
  case less
  let ?N = "length (FunctionCalls G)"
  from buildCallGraph_char[OF less.prems(1), of E M CG] obtain ch CG' where
    b: "buildCallGraph E M G CG = Some (ch, CG')"
    and v: "\<forall>j < ?N. cgLookup CG' j = cgOf E M G j"
    and c: "ch \<longleftrightarrow> (\<exists>j < ?N. set (cgLookup CG j) \<noteq> set (cgLookup CG' j))"
    by blast
  note st = steensLoop_step[OF b]
  show ?case
  proof (cases ch)
    case False
    then have "steensLoop E M (G, CG) = Some (G, CG')" using st by simp
    moreover have "loopResult E M G (G, CG')"
      using less.prems(1) v by (simp add: loopResult_def evolves_refl)
    ultimately show ?thesis by blast
  next
    case True
    then obtain j where j: "j < ?N" "set (cgLookup CG j) \<noteq> set (cgLookup CG' j)" using c by blast
    have sub: "\<forall>j < ?N. set (cgLookup CG j) \<subseteq> set (cgLookup CG' j)"
      using less.prems(4) v by simp
    have lt: "cgSize ?N CG < cgSize ?N CG'" using sub j by (rule cgSize_less)
    have "\<forall>j < ?N. set (cgLookup CG' j) \<subseteq> U"
      using v cgOf_universe[OF less.prems(1), of _ E M] less.prems(2) by fastforce
    with less.prems(3) have bd: "cgSize ?N CG' \<le> ?N * card U" by (rule cgSize_bound)
    from mergeCalls_total[OF less.prems(1), of M CG'] obtain G' where
      G': "mergeCalls M CG' G = Some G'" "wfGraph G'" "evolves G G'" by blast
    have f: "FunctionCalls G' = FunctionCalls G" using evolves_fields[OF G'(3)] by simp
    have u: "fnUniverse G' \<subseteq> U" using fnUniverse_evolves[OF G'(3)] less.prems(2) by blast
    have inv: "\<forall>j < length (FunctionCalls G'). set (cgLookup CG' j) \<subseteq> set (cgOf E M G' j)"
      using v cgOf_mono[OF less.prems(1) G'(2,3), of _ E M] f by simp
    have m: "length (FunctionCalls G') * card U - cgSize (length (FunctionCalls G')) CG'
             < ?N * card U - cgSize ?N CG"
      unfolding f using lt bd by linarith
    from less.hyps[OF m G'(2) u less.prems(3) inv] obtain s where
      s: "steensLoop E M (G', CG') = Some s" "loopResult E M G' s" by blast
    have "steensLoop E M (G, CG) = Some s" using st True G'(1) s(1) by simp
    moreover have "loopResult E M G s"
      using s(2) G'(3) f evolves_trans[OF G'(3)] by (auto simp: loopResult_def)
    ultimately show ?thesis by blast
  qed
qed

lemma steensLoop_total:
  assumes "wfGraph G"
  shows "\<exists>s. steensLoop E M (G, CG) = Some s \<and> loopResult E M G s"
proof -
  let ?N = "length (FunctionCalls G)"
  from buildCallGraph_char[OF assms, of E M CG] obtain ch CG' where
    b: "buildCallGraph E M G CG = Some (ch, CG')"
    and v: "\<forall>j < ?N. cgLookup CG' j = cgOf E M G j"
    by blast
  note st = steensLoop_step[OF b]
  show ?thesis
  proof (cases ch)
    case False
    then have "steensLoop E M (G, CG) = Some (G, CG')" using st by simp
    moreover have "loopResult E M G (G, CG')"
      using assms v by (simp add: loopResult_def evolves_refl)
    ultimately show ?thesis by blast
  next
    case True
    from mergeCalls_total[OF assms, of M CG'] obtain G' where
      G': "mergeCalls M CG' G = Some G'" "wfGraph G'" "evolves G G'" by blast
    have f: "FunctionCalls G' = FunctionCalls G" using evolves_fields[OF G'(3)] by simp
    have inv: "\<forall>j < length (FunctionCalls G'). set (cgLookup CG' j) \<subseteq> set (cgOf E M G' j)"
      using v cgOf_mono[OF assms G'(2,3), of _ E M] f by simp
    from steensLoop_total_inv[OF G'(2) subset_refl finite_fnUniverse inv] obtain s where
      s: "steensLoop E M (G', CG') = Some s" "loopResult E M G' s" by blast
    have "steensLoop E M (G, CG) = Some s" using st True G'(1) s(1) by simp
    moreover have "loopResult E M G s"
      using s(2) G'(3) f evolves_trans[OF G'(3)] by (auto simp: loopResult_def)
    ultimately show ?thesis by blast
  qed
qed

lemma reaches_append_left:
  "reaches A n r \<Longrightarrow> reaches (A @ B) n r"
proof (induction rule: reaches.induct)
  case (rep n)
  then have "n < length (A @ B)" "n_forward ((A @ B) ! n) = None" by (simp_all add: nth_append)
  then show ?case by (rule reaches.rep)
next
  case (fwd n f r)
  then have "n < length (A @ B)" "n_forward ((A @ B) ! n) = Some f" by (simp_all add: nth_append)
  then show ?case using fwd.IH by (rule reaches.fwd)
qed

lemma reaches_append_right:
  "reaches B n r \<Longrightarrow> reaches (A @ map (shiftNode (length A)) B) (n + length A) (r + length A)"
proof (induction rule: reaches.induct)
  case (rep n)
  then have "n + length A < length (A @ map (shiftNode (length A)) B)"
    "n_forward ((A @ map (shiftNode (length A)) B) ! (n + length A)) = None"
    by (simp_all add: nth_append shiftNode_def)
  then show ?case by (rule reaches.rep)
next
  case (fwd n f r)
  have a: "n + length A < length (A @ map (shiftNode (length A)) B)" using fwd.hyps by simp
  have b: "n_forward ((A @ map (shiftNode (length A)) B) ! (n + length A)) = Some (shiftHandle (length A) f)"
    using fwd.hyps by (simp add: nth_append shiftNode_def)
  have c: "reaches (A @ map (shiftNode (length A)) B) (fst (shiftHandle (length A) f)) (r + length A)"
    using fwd.IH by (simp add: shiftHandle_def)
  show ?case using a b c by (rule reaches.fwd)
qed

lemma wfStore_append:
  assumes "wfStore A" "wfStore B"
  shows "wfStore (A @ map (shiftNode (length A)) B)"
  unfolding wfStore_def
proof (intro allI impI conjI)
  let ?C = "A @ map (shiftNode (length A)) B"
  fix n assume n: "n < length ?C"
  show "\<exists>r. reaches ?C n r"
  proof (cases "n < length A")
    case True
    then obtain r where "reaches A n r" using assms(1) by (auto simp: wfStore_def)
    then show ?thesis using reaches_append_left by blast
  next
    case False
    then have "n - length A < length B" using n by simp
    then obtain r where "reaches B (n - length A) r" using assms(2) by (auto simp: wfStore_def)
    from reaches_append_right[OF this, of A] show ?thesis using False by auto
  qed
  show "\<forall>e \<in> set (n_edges (?C ! n)). fst (snd e) < length ?C"
  proof (cases "n < length A")
    case True
    then have "\<forall>e \<in> set (n_edges (A ! n)). fst (snd e) < length A"
      using assms(1) by (simp add: wfStore_def)
    then have "\<forall>e \<in> set (n_edges (A ! n)). fst (snd e) < length ?C" by fastforce
    then show ?thesis using True by (simp add: nth_append)
  next
    case False
    then have m: "n - length A < length B" using n by simp
    have e: "?C ! n = shiftNode (length A) (B ! (n - length A))"
      using False m by (simp add: nth_append)
    have "\<forall>e \<in> set (n_edges (B ! (n - length A))). fst (snd e) < length B"
      using assms(2) m by (auto simp: wfStore_def)
    then show ?thesis unfolding e by (auto simp: shiftNode_def shiftHandle_def)
  qed
qed

lemma callHandles_shift: "callHandles (shiftCall k C) = shiftHandle k ` callHandles C"
  by (cases "dcs_callee C"; cases "dcs_ret C"; cases "dcs_va C")
     (auto simp: callHandles_def shiftCall_def)

lemma spliceFrom_eq: "spliceFrom G RHS = mergeHandles (spliceMerges G RHS) (spliced G RHS)"
  by (simp add: spliceFrom_def spliced_def spliceMerges_def Let_def)

lemma handlesOK_iff: "(\<forall>h \<in> graphHandles G. fst h < N) \<longleftrightarrow> handlesOK N G"
proof
  assume a: "\<forall>h \<in> graphHandles G. fst h < N"
  have "\<And>e. e \<in> set (ScalarMap G) \<Longrightarrow> snd e \<in> graphHandles G"
    "\<And>e. e \<in> set (ReturnNodes G) \<Longrightarrow> snd e \<in> graphHandles G"
    "\<And>e. e \<in> set (VANodes G) \<Longrightarrow> snd e \<in> graphHandles G"
    "\<And>C h. C \<in> set (FunctionCalls G) \<Longrightarrow> h \<in> callHandles C \<Longrightarrow> h \<in> graphHandles G"
    "\<And>C h. C \<in> set (AuxFunctionCalls G) \<Longrightarrow> h \<in> callHandles C \<Longrightarrow> h \<in> graphHandles G"
    unfolding graphHandles_def by blast+
  then show "handlesOK N G" unfolding handlesOK_def using a by blast
next
  assume a: "handlesOK N G"
  show "\<forall>h \<in> graphHandles G. fst h < N"
  proof
    fix h assume "h \<in> graphHandles G"
    then consider e where "e \<in> set (ScalarMap G)" "h = snd e"
      | e where "e \<in> set (ReturnNodes G)" "h = snd e"
      | e where "e \<in> set (VANodes G)" "h = snd e"
      | C where "C \<in> set (FunctionCalls G)" "h \<in> callHandles C"
      | C where "C \<in> set (AuxFunctionCalls G)" "h \<in> callHandles C"
      unfolding graphHandles_def by blast
    then show "fst h < N" using a unfolding handlesOK_def by cases blast+
  qed
qed

lemma handlesOK_spliced:
  assumes "handlesOK (length (g_nodes G)) G" "handlesOK (length (g_nodes RHS)) RHS"
  shows "handlesOK (length (g_nodes G) + length (g_nodes RHS)) (spliced G RHS)"
proof -
  let ?k = "length (g_nodes G)"
  let ?N = "?k + length (g_nodes RHS)"
  have e: "\<And>xs :: ('k \<times> handle) list. \<forall>e \<in> set xs. fst (snd e) < length (g_nodes RHS)
             \<Longrightarrow> \<forall>e \<in> set (map (shiftEntry ?k) xs). fst (snd e) < ?N"
    by (simp add: shiftEntry_def shiftHandle_def)
  have l: "\<And>xs :: ('k \<times> handle) list. \<forall>e \<in> set xs. fst (snd e) < ?k \<Longrightarrow> \<forall>e \<in> set xs. fst (snd e) < ?N"
    by fastforce
  have c: "\<And>cs. \<forall>C \<in> set cs. \<forall>h \<in> callHandles C. fst h < length (g_nodes RHS)
             \<Longrightarrow> \<forall>C \<in> set (map (shiftCall ?k) cs). \<forall>h \<in> callHandles C. fst h < ?N"
    by (simp add: callHandles_shift shiftHandle_def)
  have lc: "\<And>cs. \<forall>C \<in> set cs. \<forall>h \<in> callHandles C. fst h < ?k
             \<Longrightarrow> \<forall>C \<in> set cs. \<forall>h \<in> callHandles C. fst h < ?N"
    by fastforce
  have a1: "\<forall>e \<in> set (ScalarMap G). fst (snd e) < ?N"
    using l[of "ScalarMap G"] assms(1) by (simp add: handlesOK_def)
  have a2: "\<forall>e \<in> set (map (shiftEntry ?k) (ScalarMap RHS)). fst (snd e) < ?N"
    using e[of "ScalarMap RHS"] assms(2) by (simp add: handlesOK_def)
  have s1: "\<forall>e \<in> set (ScalarMap (spliced G RHS)). fst (snd e) < ?N"
  proof
    fix x assume "x \<in> set (ScalarMap (spliced G RHS))"
    then have "x \<in> set (ScalarMap G) \<or> x \<in> set (map (shiftEntry ?k) (ScalarMap RHS))"
      by (auto simp: spliced_def Let_def)
    then show "fst (snd x) < ?N" using a1 a2 by blast
  qed
  have s2: "\<forall>e \<in> set (ReturnNodes (spliced G RHS)). fst (snd e) < ?N"
    using l[of "ReturnNodes G"] e[of "ReturnNodes RHS"] assms
    by (simp add: spliced_def Let_def handlesOK_def ball_Un)
  have s3: "\<forall>e \<in> set (VANodes (spliced G RHS)). fst (snd e) < ?N"
    using l[of "VANodes G"] e[of "VANodes RHS"] assms
    by (simp add: spliced_def Let_def handlesOK_def ball_Un)
  have s4: "\<forall>C \<in> set (FunctionCalls (spliced G RHS)). \<forall>h \<in> callHandles C. fst h < ?N"
    using lc[of "FunctionCalls G"] c[of "FunctionCalls RHS"] assms
    by (simp add: spliced_def Let_def handlesOK_def ball_Un)
  have s5: "\<forall>C \<in> set (AuxFunctionCalls (spliced G RHS)). \<forall>h \<in> callHandles C. fst h < ?N"
    using lc[of "AuxFunctionCalls G"] c[of "AuxFunctionCalls RHS"] assms
    by (simp add: spliced_def Let_def handlesOK_def ball_Un)
  show ?thesis unfolding handlesOK_def using s1 s2 s3 s4 s5 by simp
qed

lemma wfGraph_spliced:
  assumes "wfGraph G" "wfGraph RHS"
  shows "wfGraph (spliced G RHS)"
proof -
  have n: "g_nodes (spliced G RHS) = g_nodes G @ map (shiftNode (length (g_nodes G))) (g_nodes RHS)"
    by (simp add: spliced_def Let_def)
  have w: "wfStore (g_nodes (spliced G RHS))"
    unfolding n using assms by (simp add: wfGraph_def wfStore_append)
  have "handlesOK (length (g_nodes (spliced G RHS))) (spliced G RHS)"
    unfolding n using handlesOK_spliced[of G RHS] assms by (simp add: wfGraph_def handlesOK_iff)
  with w show ?thesis by (simp add: wfGraph_def handlesOK_iff)
qed

lemma spliceMerges_in:
  assumes "wfGraph G" "wfGraph RHS"
  shows "pairsIn (g_nodes (spliced G RHS)) (spliceMerges G RHS)"
  unfolding pairsIn_def
proof
  have n: "length (g_nodes (spliced G RHS)) = length (g_nodes G) + length (g_nodes RHS)"
    by (simp add: spliced_def Let_def)
  fix p assume "p \<in> set (spliceMerges G RHS)"
  then obtain e h where e: "e \<in> set (ScalarMap RHS)"
    and h: "map_of (ScalarMap G) (fst (shiftEntry (length (g_nodes G)) e)) = Some h"
    and p: "p = (h, snd (shiftEntry (length (g_nodes G)) e))"
    unfolding spliceMerges_def by (auto split: option.splits)
  have "h \<in> graphHandles G" using h by (rule map_of_handles(1))
  then have a: "fst h < length (g_nodes G)" using assms(1) by (simp add: wfGraph_def)
  have "snd e \<in> snd ` set (ScalarMap RHS)" using e by (rule imageI)
  then have "snd e \<in> graphHandles RHS" by (simp add: graphHandles_def)
  then have b: "fst (snd e) < length (g_nodes RHS)" using assms(2) by (simp add: wfGraph_def)
  show "fst (fst p) < length (g_nodes (spliced G RHS)) \<and> fst (snd p) < length (g_nodes (spliced G RHS))"
    unfolding n p using a b by (simp add: shiftEntry_def shiftHandle_def)
qed

lemma spliceFrom_total:
  assumes "wfGraph G" "wfGraph RHS"
  shows "\<exists>G'. spliceFrom G RHS = Some G' \<and> wfGraph G'"
  unfolding spliceFrom_eq
  using mergeHandles_total[OF wfGraph_spliced[OF assms] spliceMerges_in[OF assms]] by blast

lemma wfGraph_empty: "wfGraph emptyGraph"
  by (simp add: wfGraph_def wfStore_def emptyGraph_def graphHandles_def)

lemma spliceAll_total:
  assumes "\<forall>I \<in> set M. \<not> isDeclaration I \<longrightarrow> wfGraph (getDSGraph E (fn_name I))" "wfGraph G"
  shows "\<exists>G'. spliceAll E M G = Some G' \<and> wfGraph G'"
proof -
  have "\<exists>G'. foldO (\<lambda>I G. if \<not> isDeclaration I then spliceFrom G (getDSGraph E (fn_name I)) else Some G) M G
              = Some G' \<and> wfGraph G' \<and> True"
  proof (rule foldO_inv[where I = wfGraph and R = "\<lambda>a b. True"])
    fix I s assume "I \<in> set M" "wfGraph s"
    then show "\<exists>s'. (if \<not> isDeclaration I then spliceFrom s (getDSGraph E (fn_name I)) else Some s) = Some s'
                 \<and> wfGraph s' \<and> True"
      using assms(1) spliceFrom_total[of s "getDSGraph E (fn_name I)"] by auto
  qed (use assms(2) in auto)
  then show ?thesis by (simp add: spliceAll_def)
qed

lemma runOnModuleInternal_total:
  assumes "\<forall>I \<in> set M. \<not> isDeclaration I \<longrightarrow> wfGraph (getDSGraph E (fn_name I))"
    and "ResultGraph st = None"
  shows "\<exists>G. runOnModuleInternal E M st = Some (Inr (False, \<lparr>ResultGraph = Some G, CallGraph = Map.empty\<rparr>))
            \<and> wfGraph G"
proof -
  from spliceAll_total[OF assms(1) wfGraph_empty] obtain G1 where
    G1: "spliceAll E M emptyGraph = Some G1" "wfGraph G1" by blast
  from steensLoop_total[OF G1(2), of E M "CallGraph st"] obtain s where
    s: "steensLoop E M (G1, CallGraph st) = Some s" "loopResult E M G1 s" by blast
  have w: "wfGraph (fst s)" using s(2) by (simp add: loopResult_def)
  have "graphHandles (eraseInternalReturns M (fst s)) \<subseteq> graphHandles (fst s)"
    by (auto simp: graphHandles_def eraseInternalReturns_def)
  then have "wfGraph (eraseInternalReturns M (fst s))"
    using w by (auto simp: wfGraph_def eraseInternalReturns_def)
  then show ?thesis using assms(2) G1(1) s(1) by (simp add: runOnModuleInternal_def)
qed

section \<open>The example graphs are well formed\<close>

lemma wfStore_fresh:
  assumes "\<forall>N \<in> set ns. n_forward N = None \<and> n_edges N = []"
  shows "wfStore ns"
  unfolding wfStore_def
proof (intro allI impI conjI)
  fix n assume n: "n < length ns"
  then have "ns ! n \<in> set ns" by simp
  then have f: "n_forward (ns ! n) = None" "n_edges (ns ! n) = []" using assms by auto
  have "reaches ns n n" using n f(1) by (rule reaches.rep)
  then show "\<exists>r. reaches ns n r" by blast
  show "\<forall>e \<in> set (n_edges (ns ! n)). fst (snd e) < length ns" using f(2) by simp
qed

lemma fp2_spliced_wf: "wfGraph fp2_spliced"
proof -
  have "wfStore (g_nodes fp2_spliced)"
    by (rule wfStore_fresh) (simp add: fp2_spliced_def emptyNode_def)
  moreover have "handlesOK (length (g_nodes fp2_spliced)) fp2_spliced"
    by (simp add: handlesOK_def fp2_spliced_def callHandles_def)
  ultimately show ?thesis by (simp add: wfGraph_def handlesOK_iff)
qed

lemma fp2_local_wf:
  "\<forall>I \<in> set fp2. \<not> isDeclaration I \<longrightarrow> wfGraph (getDSGraph fp2_env (fn_name I))"
proof -
  have a: "wfGraph fp2_call_graph"
  proof -
    have "wfStore (g_nodes fp2_call_graph)"
      by (rule wfStore_fresh) (simp add: fp2_call_graph_def emptyNode_def)
    moreover have "handlesOK (length (g_nodes fp2_call_graph)) fp2_call_graph"
      by (simp add: handlesOK_def fp2_call_graph_def callHandles_def)
    ultimately show ?thesis by (simp add: wfGraph_def handlesOK_iff)
  qed
  have b: "wfGraph fp2_main_graph"
  proof -
    have "wfStore (g_nodes fp2_main_graph)"
      by (rule wfStore_fresh) (simp add: fp2_main_graph_def emptyNode_def)
    moreover have "handlesOK (length (g_nodes fp2_main_graph)) fp2_main_graph"
      by (simp add: handlesOK_def fp2_main_graph_def callHandles_def)
    ultimately show ?thesis by (simp add: wfGraph_def handlesOK_iff)
  qed
  have c: "wfGraph fp2_foo_graph"
  proof -
    have "wfStore (g_nodes fp2_foo_graph)"
      by (rule wfStore_fresh) (simp add: fp2_foo_graph_def emptyNode_def)
    moreover have "handlesOK (length (g_nodes fp2_foo_graph)) fp2_foo_graph"
      by (simp add: handlesOK_def fp2_foo_graph_def callHandles_def)
    ultimately show ?thesis by (simp add: wfGraph_def handlesOK_iff)
  qed
  show ?thesis using a b c by (simp add: fp2_def fp2_env_def)
qed

lemma fp2_spliceAll: "spliceAll fp2_env fp2 emptyGraph = Some fp2_spliced"
  by code_simp

section \<open>The claims about the call-target finder\<close>


text \<open>
  Claim C4, as stated, fails for \<open>undef\<close>: in a module whose only call site calls
  \<open>undef\<close>, the finder records the site in \<open>AllSites\<close> and leaves \<open>CompleteSites\<close>
  empty; the site is not complete.
\<close>

theorem C4_undef_not_complete:
  "findIndTargets T_none M_undef ctf_init = Inr (ctf_init\<lparr>AllSites := [cs_undef]\<rparr>)
   \<and> moduleCallSites M_undef = [cs_undef]
   \<and> isa_UndefValue (cs_called cs_undef)
   \<and> \<not> isComplete (ctf_init\<lparr>AllSites := [cs_undef]\<rparr>) cs_undef"
  by (simp add: findIndTargets_def M_undef_def visitInst_def i_undef_def visitCallSite_def
      cs_undef_def ctf_init_def isComplete_def moduleCallSites_def callSitesOf_def Let_def)

text \<open>
  Claim C4, amended.  After a run of the finder over a module, every call site whose called
  value is a function or the null constant, possibly under pointer casts, is in
  \<open>CompleteSites\<close>; a call site whose called value is \<open>undef\<close> is skipped and is not in
  \<open>CompleteSites\<close>.
\<close>

theorem C4_direct_and_null_complete:
  assumes "findIndTargets T M ctf_init = Inr st"
    and "distinct (map cs_addr (moduleCallSites M))"
    and "cs \<in> set (moduleCallSites M)"
  shows "(dyn_cast_Function (stripPointerCasts (cs_called cs)) \<noteq> None
            \<or> isa_ConstantPointerNull (stripPointerCasts (cs_called cs))
          \<longrightarrow> isComplete st cs)
       \<and> (isa_UndefValue (cs_called cs) \<longrightarrow> \<not> isComplete st cs)"
proof -
  have R: "runSpec T (moduleCallSites M) ctf_init st"
    using assms(1,2) by (rule findIndTargets_runSpec)
  then have C: "CompleteSites st = cs_addr ` {c \<in> set (moduleCallSites M). completeSpec T c}"
    by (simp add: runSpec_def ctf_init_def)
  have a: "directSpec cs \<Longrightarrow> isComplete st cs"
    using C assms(3) by (auto simp: isComplete_def completeSpec_def)
  have b: "\<not> isComplete st cs" if u: "isa_UndefValue (cs_called cs)"
  proof
    assume "isComplete st cs"
    then obtain c where c: "c \<in> set (moduleCallSites M)" "completeSpec T c" "cs_addr c = cs_addr cs"
      using C by (auto simp: isComplete_def)
    from assms(2) c(1) assms(3) c(3) have "c = cs"
      by (meson distinct_map inj_onD)
    moreover have "\<not> completeSpec T cs"
      using u skip_not_direct[of "cs_called cs"]
      by (auto simp: completeSpec_def directSpec_def completeIndSpec_def isIndirectSite_def)
    ultimately show False using c(2) by simp
  qed
  show ?thesis using a b by (auto simp: directSpec_def)
qed

text \<open>The hypotheses of C4 hold on the example module, for a direct call through a
  cast, a call of null and a call of \<open>undef\<close>.\<close>

theorem C4_direct_and_null_complete_witness:
  "findIndTargets T_ex M_ex ctf_init = Inr st_ex
   \<and> distinct (map cs_addr (moduleCallSites M_ex))
   \<and> mkSite 8 ''h'' (VCast (VFunction ''g'')) \<in> set (moduleCallSites M_ex)
   \<and> isComplete st_ex (mkSite 8 ''h'' (VCast (VFunction ''g'')))
   \<and> mkSite 4 ''d'' VNull \<in> set (moduleCallSites M_ex)
   \<and> isComplete st_ex (mkSite 4 ''d'' VNull)
   \<and> mkSite 2 ''b'' VUndef \<in> set (moduleCallSites M_ex)
   \<and> \<not> isComplete st_ex (mkSite 2 ''b'' VUndef)"
proof -
  have m: "mkSite 8 ''h'' (VCast (VFunction ''g'')) \<in> set (moduleCallSites M_ex)"
    "mkSite 4 ''d'' VNull \<in> set (moduleCallSites M_ex)"
    "mkSite 2 ''b'' VUndef \<in> set (moduleCallSites M_ex)"
    unfolding ex_sites by (simp_all add: st_ex_def)
  show ?thesis
    using C4_direct_and_null_complete[OF ex_run ex_distinct m(1)]
      C4_direct_and_null_complete[OF ex_run ex_distinct m(2)]
      C4_direct_and_null_complete[OF ex_run ex_distinct m(3)]
      ex_run ex_distinct m
    by (simp add: mkSite_def)
qed

text \<open>
  Claim C5.  After a run of the finder, an indirect call site is in \<open>CompleteSites\<close>
  exactly when the node of its called value is neither Incomplete nor External and its
  candidate list is not empty; it is one of the sites counted by \<open>CompleteEmpty\<close> exactly
  when the node is neither Incomplete nor External and its candidate list is empty, and
  \<open>CompleteEmpty\<close> is the number of these sites.
\<close>

theorem C5_indirect_completeness:
  assumes "findIndTargets T M ctf_init = Inr st"
    and "distinct (map cs_addr (moduleCallSites M))"
    and "cs \<in> set (moduleCallSites M)"
    and "isIndirectSite cs"
  shows "\<exists>N. node_of T (cs_caller cs) (cs_called cs) = Some N
            \<and> (isComplete st cs \<longleftrightarrow>
                 \<not> isIncompleteNode N \<and> \<not> isExternalNode N \<and> candidates st cs \<noteq> [])
            \<and> (completeEmptySpec T cs \<longleftrightarrow>
                 \<not> isIncompleteNode N \<and> \<not> isExternalNode N \<and> candidates st cs = [])
            \<and> CompleteEmpty st = length (filter (completeEmptySpec T) (moduleCallSites M))"
proof -
  have R: "runSpec T (moduleCallSites M) ctf_init st"
    using assms(1,2) by (rule findIndTargets_runSpec)
  then have C: "CompleteSites st = cs_addr ` {c \<in> set (moduleCallSites M). completeSpec T c}"
    by (simp add: runSpec_def ctf_init_def)
  from R assms(3,4) obtain N where N: "calleeNode T cs = Some N"
    by (auto simp: runSpec_def)
  have l: "lookupInd cs (IndMap st) = entrySpec T cs" using R assms(3) by (simp add: runSpec_def)
  have cd: "candidates st cs = indTargets T cs"
    using l assms(4) N by (simp add: candidates_entrySpec)
  have nd: "\<not> directSpec cs" using assms(4) by (simp add: directSpec_def isIndirectSite_def)
  have "isComplete st cs \<longleftrightarrow> completeSpec T cs"
  proof
    assume "isComplete st cs"
    then obtain c where c: "c \<in> set (moduleCallSites M)" "completeSpec T c" "cs_addr c = cs_addr cs"
      using C by (auto simp: isComplete_def)
    from assms(2) c(1) assms(3) c(3) have "c = cs"
      by (meson distinct_map inj_onD)
    then show "completeSpec T cs" using c(2) by simp
  next
    assume "completeSpec T cs"
    then show "isComplete st cs" using C assms(3) by (auto simp: isComplete_def)
  qed
  then have i: "isComplete st cs \<longleftrightarrow> nodeIsComplete N \<and> candidates st cs \<noteq> []"
    using nd N assms(4) cd by (simp add: completeSpec_def completeIndSpec_def)
  have e: "completeEmptySpec T cs \<longleftrightarrow> nodeIsComplete N \<and> candidates st cs = []"
    using N assms(4) cd by (simp add: completeEmptySpec_def)
  have k: "CompleteEmpty st = length (filter (completeEmptySpec T) (moduleCallSites M))"
    using R by (simp add: runSpec_def ctf_init_def)
  show ?thesis
    using N i e k by (auto simp: calleeNode_def nodeIsComplete_def)
qed

text \<open>The hypotheses of C5 hold on the example module, for a complete site and a
  complete-empty site.\<close>

theorem C5_indirect_completeness_witness:
  "findIndTargets T_ex M_ex ctf_init = Inr st_ex
   \<and> distinct (map cs_addr (moduleCallSites M_ex))
   \<and> mkSite 5 ''e'' (VOther ''p'') \<in> set (moduleCallSites M_ex)
   \<and> isIndirectSite (mkSite 5 ''e'' (VOther ''p''))
   \<and> isComplete st_ex (mkSite 5 ''e'' (VOther ''p''))
   \<and> candidates st_ex (mkSite 5 ''e'' (VOther ''p'')) = [''g'']
   \<and> mkSite 6 ''f'' (VOther ''q'') \<in> set (moduleCallSites M_ex)
   \<and> isIndirectSite (mkSite 6 ''f'' (VOther ''q''))
   \<and> \<not> isComplete st_ex (mkSite 6 ''f'' (VOther ''q''))
   \<and> completeEmptySpec T_ex (mkSite 6 ''f'' (VOther ''q''))
   \<and> candidates st_ex (mkSite 6 ''f'' (VOther ''q'')) = []
   \<and> CompleteEmpty st_ex = 1"
proof -
  have c: "candidates st_ex (mkSite 5 ''e'' (VOther ''p'')) = [''g'']"
    "candidates st_ex (mkSite 6 ''f'' (VOther ''q'')) = []"
    by (simp_all add: candidates_def st_ex_def mkSite_def mkCall_def cs_addr_def)
  have n: "node_of T_ex ''f'' (VOther ''p'') = Some emptyNode"
    "node_of T_ex ''f'' (VOther ''q'') = Some emptyNode"
    by (simp_all add: T_ex_def)
  have f: "\<not> isIncompleteNode emptyNode" "\<not> isExternalNode emptyNode"
    by (simp_all add: isIncompleteNode_def isExternalNode_def emptyNode_def)
  have k: "CompleteEmpty st_ex = 1" by (simp add: st_ex_def)
  show ?thesis
    using C5_indirect_completeness[OF ex_run ex_distinct ex_mem(1) ex_indirect(1)]
      C5_indirect_completeness[OF ex_run ex_distinct ex_mem(2) ex_indirect(2)]
      ex_run ex_distinct ex_mem ex_indirect c n f k
    by (simp add: mkSite_def)
qed

text \<open>
  Claim C7.  After a run of the finder, the candidate list of an indirect call site is
  the members of the SCCs of the callees the call graph reports for the site, followed by
  the members of the SCC of the site's enclosing function, each restricted to the
  functions whose leader is a key of the globals graph's scalar map.  In particular it
  contains every such member of the caller's SCC.
\<close>

theorem C7_caller_scc_in_candidates:
  assumes "findIndTargets T M ctf_init = Inr st"
    and "distinct (map cs_addr (moduleCallSites M))"
    and "cs \<in> set (moduleCallSites M)"
    and "isIndirectSite cs"
  shows "candidates st cs =
           concat (map (\<lambda>F. filter (\<lambda>x. sm_has T (sm_leader T x)) (cg_scc T F)) (cg_callees T cs))
           @ filter (\<lambda>x. sm_has T (sm_leader T x)) (cg_scc T (cg_sccLeader T (cs_caller cs)))
       \<and> {x \<in> set (cg_scc T (cg_sccLeader T (cs_caller cs))). sm_has T (sm_leader T x)}
           \<subseteq> set (candidates st cs)
       \<and> {x. \<exists>F. F \<in> set (cg_callees T cs) \<and> x \<in> set (cg_scc T F) \<and> sm_has T (sm_leader T x)}
           \<subseteq> set (candidates st cs)"
proof -
  have R: "runSpec T (moduleCallSites M) ctf_init st"
    using assms(1,2) by (rule findIndTargets_runSpec)
  from R assms(3,4) have N: "calleeNode T cs \<noteq> None"
    by (auto simp: runSpec_def)
  have l: "lookupInd cs (IndMap st) = entrySpec T cs" using R assms(3) by (simp add: runSpec_def)
  have cd: "candidates st cs = indTargets T cs"
    using l assms(4) N by (rule candidates_entrySpec)
  have sc: "sccCandidates T = (\<lambda>F. filter (\<lambda>x. sm_has T (sm_leader T x)) (cg_scc T F))"
    by (rule ext) (simp add: sccCandidates_def)
  have eq: "candidates st cs =
           concat (map (\<lambda>F. filter (\<lambda>x. sm_has T (sm_leader T x)) (cg_scc T F)) (cg_callees T cs))
           @ filter (\<lambda>x. sm_has T (sm_leader T x)) (cg_scc T (cg_sccLeader T (cs_caller cs)))"
    unfolding cd indTargets_def sc by simp
  show ?thesis
    unfolding eq[symmetric] unfolding eq by auto
qed

text \<open>
  Claim C10.  A call site whose called value is inline asm is skipped: its visit only
  appends it to \<open>AllSites\<close>; after a run it has no entry in \<open>IndMap\<close>, it is not in
  \<open>CompleteSites\<close>, and it is counted neither by \<open>DirCall\<close> nor by \<open>IndCall\<close>, which
  count the direct (and null) sites and the indirect sites.
\<close>

theorem C10_inline_asm_skipped:
  assumes "findIndTargets T M ctf_init = Inr st"
    and "distinct (map cs_addr (moduleCallSites M))"
    and "cs \<in> set (moduleCallSites M)"
    and "isa_InlineAsm (cs_called cs)"
  shows "lookupInd cs (IndMap st) = None
       \<and> \<not> isComplete st cs
       \<and> visitCallSite T cs s = Inr (s\<lparr>AllSites := AllSites s @ [cs]\<rparr>)
       \<and> \<not> directSpec cs \<and> \<not> isIndirectSite cs
       \<and> DirCall st = length (filter directSpec (moduleCallSites M))
       \<and> IndCall st = length (filter isIndirectSite (moduleCallSites M))"
proof -
  have R: "runSpec T (moduleCallSites M) ctf_init st"
    using assms(1,2) by (rule findIndTargets_runSpec)
  then have C: "CompleteSites st = cs_addr ` {c \<in> set (moduleCallSites M). completeSpec T c}"
    by (simp add: runSpec_def ctf_init_def)
  have nd: "\<not> directSpec cs" "\<not> isIndirectSite cs"
    using assms(4) skip_not_direct[of "cs_called cs"]
    by (auto simp: directSpec_def isIndirectSite_def)
  have nc: "\<not> completeSpec T cs" using nd by (simp add: completeSpec_def completeIndSpec_def)
  have l: "lookupInd cs (IndMap st) = None"
    using R assms(3,4) by (simp add: runSpec_def entrySpec_def)
  have i: "\<not> isComplete st cs"
  proof
    assume "isComplete st cs"
    then obtain c where c: "c \<in> set (moduleCallSites M)" "completeSpec T c" "cs_addr c = cs_addr cs"
      using C by (auto simp: isComplete_def)
    from assms(2) c(1) assms(3) c(3) have "c = cs"
      by (meson distinct_map inj_onD)
    then show False using c(2) nc by simp
  qed
  have v: "visitCallSite T cs s = Inr (s\<lparr>AllSites := AllSites s @ [cs]\<rparr>)"
    using assms(4) by (simp add: visitCallSite_eq Let_def)
  have k: "DirCall st = length (filter directSpec (moduleCallSites M))"
    "IndCall st = length (filter isIndirectSite (moduleCallSites M))"
    using R by (simp_all add: runSpec_def ctf_init_def)
  show ?thesis using l i v nd k by simp
qed

text \<open>The hypotheses of C10 hold on the example module.\<close>

theorem C10_inline_asm_skipped_witness:
  "findIndTargets T_ex M_ex ctf_init = Inr st_ex
   \<and> distinct (map cs_addr (moduleCallSites M_ex))
   \<and> mkSite 3 ''c'' (VInlineAsm ''nop'') \<in> set (moduleCallSites M_ex)
   \<and> isa_InlineAsm (cs_called (mkSite 3 ''c'' (VInlineAsm ''nop'')))
   \<and> lookupInd (mkSite 3 ''c'' (VInlineAsm ''nop'')) (IndMap st_ex) = None
   \<and> \<not> isComplete st_ex (mkSite 3 ''c'' (VInlineAsm ''nop''))
   \<and> DirCall st_ex = 3 \<and> IndCall st_ex = 4 \<and> length (moduleCallSites M_ex) = 9"
proof -
  have a: "isa_InlineAsm (cs_called (mkSite 3 ''c'' (VInlineAsm ''nop'')))"
    by (simp add: mkSite_def)
  have k: "DirCall st_ex = 3" "IndCall st_ex = 4" "length (moduleCallSites M_ex) = 9"
    unfolding ex_sites by (simp_all add: st_ex_def)
  show ?thesis
    using C10_inline_asm_skipped[OF ex_run ex_distinct ex_mem(5) a]
      ex_run ex_distinct ex_mem(5) a k
    by simp
qed

text \<open>
  Claim C8, as stated, fails for a direct call: for a module whose only call site is a
  direct call, the report is the header line alone.
\<close>

theorem C8_direct_call_no_line:
  "findIndTargets T_none M_direct ctf_init =
     Inr (ctf_init\<lparr>AllSites := [cs_direct], IndMap := [(cs_direct, [''g''])],
            CompleteSites := {16}, DirCall := 1\<rparr>)
   \<and> moduleCallSites M_direct = [cs_direct]
   \<and> print (ctf_init\<lparr>AllSites := [cs_direct], IndMap := [(cs_direct, [''g''])],
            CompleteSites := {16}, DirCall := 1\<rparr>) = ''[* = incomplete] CS: func list\<newline>''"
  by (simp add: findIndTargets_def M_direct_def visitInst_def i_direct_def visitCallSite_def
      cs_direct_def ctf_init_def moduleCallSites_def callSitesOf_def Let_def
      getCalledFunction_def push_back_def cs_addr_def print_def printEntry_def printNames_def)

text \<open>
  Claim C8, amended.  After a run of the finder, the report is the header line followed
  by one line for each indirect call site that has an entry in \<open>IndMap\<close>, in ascending
  order of call-site address; these are the indirect sites whose callee node is neither
  Incomplete nor External or whose candidate list is not empty.  A line starts with
  \<open>*\<close>, the instruction address, the caller's name and the instruction's name exactly
  when the site is not in \<open>CompleteSites\<close>.  Direct calls, and calls of \<open>undef\<close>, inline
  asm and null, get no line.
\<close>

theorem C8_report_lines:
  assumes "findIndTargets T M ctf_init = Inr st"
    and "distinct (map cs_addr (moduleCallSites M))"
  shows "print st = reportHeader
           @ concat (map (reportLine st) (filter (\<lambda>e. isIndirectSite (fst e)) (IndMap st)))
       \<and> sorted_wrt (<) (map (\<lambda>e. cs_addr (fst e)) (IndMap st))
       \<and> set (filter (\<lambda>e. isIndirectSite (fst e)) (IndMap st)) =
           {(cs, v). cs \<in> set (moduleCallSites M) \<and> isIndirectSite cs \<and> v = indTargets T cs
              \<and> (\<exists>N. calleeNode T cs = Some N \<and> (nodeIsComplete N \<or> indTargets T cs \<noteq> []))}"
proof -
  have R: "runSpec T (moduleCallSites M) ctf_init st"
    using assms(1,2) by (rule findIndTargets_runSpec)
  have S: "set (IndMap st) = {(cs, v). cs \<in> set (moduleCallSites M) \<and> entrySpec T cs = Some v}"
    using R assms(2) by (rule IndMap_runSpec)
  have "\<forall>e \<in> set (IndMap st). printEntry st e = (if isIndirectSite (fst e) then reportLine st e else [])"
  proof
    fix e assume "e \<in> set (IndMap st)"
    then have "entrySpec T (fst e) = Some (snd e)" using S by auto
    then show "printEntry st e = (if isIndirectSite (fst e) then reportLine st e else [])"
      by (rule printEntry_entry)
  qed
  then have p: "print st = reportHeader
           @ concat (map (reportLine st) (filter (\<lambda>e. isIndirectSite (fst e)) (IndMap st)))"
    unfolding print_def reportHeader_def by (simp add: concat_map_filter_if)
  have s: "sorted_wrt (<) (map (\<lambda>e. cs_addr (fst e)) (IndMap st))"
    using R by (simp add: runSpec_def wfState_def wfInd_def indKeys_def)
  have e: "\<And>cs v. isIndirectSite cs \<Longrightarrow> entrySpec T cs = Some v \<longleftrightarrow>
          v = indTargets T cs \<and> (\<exists>N. calleeNode T cs = Some N \<and> (nodeIsComplete N \<or> indTargets T cs \<noteq> []))"
    by (auto simp: entrySpec_def isIndirectSite_def split: option.splits)
  have f: "set (filter (\<lambda>e. isIndirectSite (fst e)) (IndMap st)) =
           {(cs, v). cs \<in> set (moduleCallSites M) \<and> isIndirectSite cs \<and> v = indTargets T cs
              \<and> (\<exists>N. calleeNode T cs = Some N \<and> (nodeIsComplete N \<or> indTargets T cs \<noteq> []))}"
    using S e by auto
  show ?thesis using p s f by simp
qed

text \<open>The hypotheses of C8 hold on the example module; its report has three lines
  after the header, for nine call sites.\<close>

theorem C8_report_lines_witness:
  "findIndTargets T_ex M_ex ctf_init = Inr st_ex
   \<and> distinct (map cs_addr (moduleCallSites M_ex))
   \<and> filter (\<lambda>e. isIndirectSite (fst e)) (IndMap st_ex) =
       [(mkSite 5 ''e'' (VOther ''p''), [''g'']), (mkSite 6 ''f'' (VOther ''q''), []),
        (mkSite 9 ''i'' (VOther ''s''), [''g''])]
   \<and> print st_ex =
       ''[* = incomplete] CS: func list\<newline>call: g\<newline>* 0x6 f f call:\<newline>* 0x9 f i call: g\<newline>''"
proof -
  have f: "filter (\<lambda>e. isIndirectSite (fst e)) (IndMap st_ex) =
       [(mkSite 5 ''e'' (VOther ''p''), [''g'']), (mkSite 6 ''f'' (VOther ''q''), []),
        (mkSite 9 ''i'' (VOther ''s''), [''g''])]"
    by (simp add: st_ex_def isIndirectSite_def mkSite_def)
  have c: "isComplete st_ex (mkSite 5 ''e'' (VOther ''p''))"
    "\<not> isComplete st_ex (mkSite 6 ''f'' (VOther ''q''))"
    "\<not> isComplete st_ex (mkSite 9 ''i'' (VOther ''s''))"
    by (simp_all add: isComplete_def st_ex_def mkSite_def mkCall_def cs_addr_def)
  have l: "concat (map (reportLine st_ex) [(mkSite 5 ''e'' (VOther ''p''), [''g'']), (mkSite 6 ''f'' (VOther ''q''), []),
        (mkSite 9 ''i'' (VOther ''s''), [''g''])]) = ''call: g\<newline>* 0x6 f f call:\<newline>* 0x9 f i call: g\<newline>''"
    using c by (simp add: reportLine_def show_ptr_def printNames_def mkSite_def mkCall_def cs_addr_def hexdigit_def)
  show ?thesis
    using C8_report_lines[OF ex_run ex_distinct] ex_run ex_distinct
    unfolding f l by (simp add: reportHeader_def)
qed

text \<open>The hypotheses of C7 hold on a module with one indirect call in \<open>f\<close>, whose SCC
  is \<open>{f, h}\<close>: both become candidates although the call graph reports no callee.\<close>

theorem C7_caller_scc_in_candidates_witness:
  "findIndTargets T_rec M_rec ctf_init = Inr st_rec
   \<and> distinct (map cs_addr (moduleCallSites M_rec))
   \<and> mkSite 1 ''a'' (VOther ''p'') \<in> set (moduleCallSites M_rec)
   \<and> isIndirectSite (mkSite 1 ''a'' (VOther ''p''))
   \<and> cg_callees T_rec (mkSite 1 ''a'' (VOther ''p'')) = []
   \<and> cg_scc T_rec (cg_sccLeader T_rec ''f'') = [''f'', ''h'']
   \<and> candidates st_rec (mkSite 1 ''a'' (VOther ''p'')) = [''f'', ''h'']"
proof -
  have m: "mkSite 1 ''a'' (VOther ''p'') \<in> set (moduleCallSites M_rec)"
    "distinct (map cs_addr (moduleCallSites M_rec))"
    unfolding rec_sites by simp_all
  have i: "isIndirectSite (mkSite 1 ''a'' (VOther ''p''))"
    by (simp add: isIndirectSite_def mkSite_def)
  have e: "cg_callees T_rec (mkSite 1 ''a'' (VOther ''p'')) = []"
    "cg_scc T_rec (cg_sccLeader T_rec (cs_caller (mkSite 1 ''a'' (VOther ''p'')))) = [''f'', ''h'']"
    "cg_scc T_rec (cg_sccLeader T_rec ''f'') = [''f'', ''h'']"
    "sm_has T_rec = (\<lambda>F. True)"
    by (simp_all add: T_rec_def mkSite_def)
  show ?thesis
    using C7_caller_scc_in_candidates[OF rec_run m(2) m(1) i] rec_run m e i
    by simp
qed

section \<open>The claims about the Steensgaard driver\<close>

text \<open>
  Claim C1.  On the module fp2.ll the driver returns, and in its result graph the scalars
  \<open>main:mval\<close> and \<open>foo:fval\<close>, \<open>main:mval2\<close> and \<open>main:mval\<close>, \<open>call:cval\<close> and
  \<open>main:mval\<close> are bound to handles that normalize to the same node.
\<close>

theorem C1_fp2_same_node:
  "(case runOnModuleInternal fp2_env fp2 steens_init of
      Some (Inr res) \<Rightarrow>
        (case ResultGraph (snd res) of
           Some G \<Rightarrow>
             sameNode G (SLocal ''main'' ''mval'') (SLocal ''foo'' ''fval'')
             \<and> sameNode G (SLocal ''main'' ''mval2'') (SLocal ''main'' ''mval'')
             \<and> sameNode G (SLocal ''call'' ''cval'') (SLocal ''main'' ''mval'')
         | None \<Rightarrow> False)
    | _ \<Rightarrow> False)"
  by code_simp

text \<open>
  Claim C6.  On a well-formed result graph, as in every iteration of the fixpoint,
  \<open>buildCallGraph\<close> returns, and the callee set it stores for a call record is: for a
  direct call the called function, unless it is a declaration (then the set is empty); for
  an indirect call the functions among the globals of the node the callee handle
  normalizes to, filtered by \<open>functionIsCallable\<close> for the site.
\<close>

theorem C6_callee_sets:
  assumes "wfGraph G"
  shows "\<exists>ch CG'. buildCallGraph E M G CG = Some (ch, CG')
          \<and> (\<forall>i < length (FunctionCalls G).
               case dcs_callee (FunctionCalls G ! i) of
                 DirectCallee F \<Rightarrow> set (cgLookup CG' i) = {F} - {F. isDeclarationOf M F}
               | IndirectCallee h \<Rightarrow>
                   (\<exists>r. chase (g_nodes G) h = Some r
                       \<and> set (cgLookup CG' i) =
                           {F \<in> set (n_globals (g_nodes G ! fst r)).
                              getFunction M F \<noteq> None
                              \<and> functionIsCallable E (dcs_site (FunctionCalls G ! i)) F}))"
proof -
  from buildCallGraph_char[OF assms, of E M CG] obtain ch CG' where
    b: "buildCallGraph E M G CG = Some (ch, CG')"
    and v: "\<forall>j < length (FunctionCalls G). CG' j = getAllCallees E M G (FunctionCalls G ! j) []"
    by blast
  have "case dcs_callee (FunctionCalls G ! i) of
          DirectCallee F \<Rightarrow> set (cgLookup CG' i) = {F} - {F. isDeclarationOf M F}
        | IndirectCallee h \<Rightarrow>
            (\<exists>r. chase (g_nodes G) h = Some r
                \<and> set (cgLookup CG' i) =
                    {F \<in> set (n_globals (g_nodes G ! fst r)).
                       getFunction M F \<noteq> None
                       \<and> functionIsCallable E (dcs_site (FunctionCalls G ! i)) F})"
    if i: "i < length (FunctionCalls G)" for i
  proof -
    let ?CS = "FunctionCalls G ! i"
    have m: "?CS \<in> set (FunctionCalls G)" using i by simp
    from getAllCallees_char[OF assms m, of E M] obtain X r where
      X: "getAllCallees E M G ?CS [] = Some X" "calleeRep (g_nodes G) ?CS r"
      "set X = calleeSetOf E M (g_nodes G) ?CS r" by blast
    have l: "cgLookup CG' i = X" using v i X(1) by (simp add: cgLookup_def)
    show ?thesis
    proof (cases "dcs_callee ?CS")
      case (DirectCallee F)
      then show ?thesis using l X(3) by (simp add: calleeSetOf_def)
    next
      case (IndirectCallee h)
      then have rr: "reaches (g_nodes G) (fst h) r" using X(2) by (simp add: calleeRep_def)
      from chase_reaches[OF rr, of "snd h"] obtain off where
        "chase (g_nodes G) h = Some (r, off)" by auto
      then show ?thesis using IndirectCallee l X(3) by (simp add: calleeSetOf_def)
    qed
  qed
  then show ?thesis using b by blast
qed

text \<open>
  Claim C2.  One iteration of the fixpoint loop on a well-formed result graph:
  \<open>buildCallGraph\<close> computes the callee sets, the merges of the loop body return a
  well-formed graph with the same call records, and the callee set the next
  \<open>buildCallGraph\<close> computes for each call record contains the one computed before.
\<close>

theorem C2_callee_sets_monotone:
  assumes "wfGraph G"
  shows "\<exists>ch CG1 G' ch' CG2.
           buildCallGraph E M G CG = Some (ch, CG1)
           \<and> mergeCalls M CG1 G = Some G'
           \<and> wfGraph G' \<and> FunctionCalls G' = FunctionCalls G
           \<and> buildCallGraph E M G' CG1 = Some (ch', CG2)
           \<and> (\<forall>i < length (FunctionCalls G). set (cgLookup CG1 i) \<subseteq> set (cgLookup CG2 i))"
proof -
  from buildCallGraph_char[OF assms, of E M CG] obtain ch CG1 where
    b: "buildCallGraph E M G CG = Some (ch, CG1)"
    and v: "\<forall>j < length (FunctionCalls G). cgLookup CG1 j = cgOf E M G j"
    by blast
  from mergeCalls_total[OF assms, of M CG1] obtain G' where
    G': "mergeCalls M CG1 G = Some G'" "wfGraph G'" "evolves G G'" by blast
  have f: "FunctionCalls G' = FunctionCalls G" using evolves_fields[OF G'(3)] by simp
  from buildCallGraph_char[OF G'(2), of E M CG1] obtain ch' CG2 where
    b': "buildCallGraph E M G' CG1 = Some (ch', CG2)"
    and v': "\<forall>j < length (FunctionCalls G'). cgLookup CG2 j = cgOf E M G' j"
    by blast
  have "\<forall>i < length (FunctionCalls G). set (cgLookup CG1 i) \<subseteq> set (cgLookup CG2 i)"
    using v v' f cgOf_mono[OF assms G'(2,3), of _ E M] by simp
  then show ?thesis using b G'(1,2) f b' by blast
qed

text \<open>
  Claim C3.  From a well-formed result graph and any call graph, the uncapped fixpoint
  loop returns.
\<close>

theorem C3_fixpoint_terminates:
  assumes "wfGraph G"
  shows "\<exists>G' CG'. steensLoop E M (G, CG) = Some (G', CG')
           \<and> wfGraph G' \<and> FunctionCalls G' = FunctionCalls G"
proof -
  from steensLoop_total[OF assms, of E M CG] obtain s where
    s: "steensLoop E M (G, CG) = Some s" "loopResult E M G s" by blast
  have "wfGraph (fst s)" "FunctionCalls (fst s) = FunctionCalls G"
    using s(2) evolves_fields[of G "fst s"] by (simp_all add: loopResult_def)
  then show ?thesis using s(1) by (cases s) auto
qed

text \<open>
  Claim C9.  The module is an argument of both passes and of nothing they return.  When
  the local graphs are well formed and no result graph is allocated, the driver's
  \<open>runOnModule\<close> returns \<open>false\<close>; the finder's \<open>runOnModule\<close> returns \<open>false\<close>
  unless the assertion on the callee node fails.
\<close>

theorem C9_runOnModule_false:
  assumes "\<forall>I \<in> set M. \<not> isDeclaration I \<longrightarrow> wfGraph (getDSGraph E (fn_name I))"
    and "ResultGraph st = None"
  shows "(\<exists>G. Steens_runOnModule E M st =
                 Some (Inr (False, \<lparr>ResultGraph = Some G, CallGraph = Map.empty\<rparr>)))
         \<and> ((\<exists>cst'. CTF_runOnModule T M cst = Inr (False, cst'))
              \<or> CTF_runOnModule T M cst = Inl NoDSNode)"
proof -
  from runOnModuleInternal_total[OF assms] have
    a: "\<exists>G. Steens_runOnModule E M st =
                 Some (Inr (False, \<lparr>ResultGraph = Some G, CallGraph = Map.empty\<rparr>))"
    unfolding Steens_runOnModule_def by blast
  have b: "(\<exists>cst'. CTF_runOnModule T M cst = Inr (False, cst'))
              \<or> CTF_runOnModule T M cst = Inl NoDSNode"
  proof (cases "findIndTargets T M cst")
    case (Inl e)
    then show ?thesis by (cases e) (simp add: CTF_runOnModule_def)
  next
    case (Inr s)
    then show ?thesis by (simp add: CTF_runOnModule_def)
  qed
  show ?thesis using a b by simp
qed

text \<open>The hypothesis of C6 holds on the spliced graph of fp2.ll: the first
  \<open>buildCallGraph\<close> finds no callee for the call through \<open>%fp\<close> and \<open>call\<close> for the
  direct call.\<close>

theorem C6_callee_sets_witness:
  "wfGraph fp2_spliced
   \<and> (\<exists>ch CG'. buildCallGraph fp2_env fp2 fp2_spliced Map.empty = Some (ch, CG')
          \<and> (\<forall>i < length (FunctionCalls fp2_spliced).
               case dcs_callee (FunctionCalls fp2_spliced ! i) of
                 DirectCallee F \<Rightarrow> set (cgLookup CG' i) = {F} - {F. isDeclarationOf fp2 F}
               | IndirectCallee h \<Rightarrow>
                   (\<exists>r. chase (g_nodes fp2_spliced) h = Some r
                       \<and> set (cgLookup CG' i) =
                           {F \<in> set (n_globals (g_nodes fp2_spliced ! fst r)).
                              getFunction fp2 F \<noteq> None
                              \<and> functionIsCallable fp2_env (dcs_site (FunctionCalls fp2_spliced ! i)) F})))
   \<and> (case buildCallGraph fp2_env fp2 fp2_spliced Map.empty of
         None \<Rightarrow> False
       | Some b \<Rightarrow> fst b \<and> cgLookup (snd b) 0 = [] \<and> cgLookup (snd b) 1 = [''call''])"
proof -
  have c: "(case buildCallGraph fp2_env fp2 fp2_spliced Map.empty of
         None \<Rightarrow> False
       | Some b \<Rightarrow> fst b \<and> cgLookup (snd b) 0 = [] \<and> cgLookup (snd b) 1 = [''call''])"
    by code_simp
  show ?thesis
    using C6_callee_sets[OF fp2_spliced_wf, of fp2_env fp2 Map.empty] fp2_spliced_wf c
    by simp
qed

text \<open>The hypothesis of C2 holds on the spliced graph of fp2.ll: the callee set of
  the call through \<open>%fp\<close> grows from empty to \<open>foo\<close>.\<close>

theorem C2_callee_sets_monotone_witness:
  "wfGraph fp2_spliced
   \<and> (\<exists>ch CG1 G' ch' CG2.
           buildCallGraph fp2_env fp2 fp2_spliced Map.empty = Some (ch, CG1)
           \<and> mergeCalls fp2 CG1 fp2_spliced = Some G'
           \<and> wfGraph G' \<and> FunctionCalls G' = FunctionCalls fp2_spliced
           \<and> buildCallGraph fp2_env fp2 G' CG1 = Some (ch', CG2)
           \<and> (\<forall>i < length (FunctionCalls fp2_spliced). set (cgLookup CG1 i) \<subseteq> set (cgLookup CG2 i)))
   \<and> (case buildCallGraph fp2_env fp2 fp2_spliced Map.empty of
         None \<Rightarrow> False
       | Some b \<Rightarrow>
          (case mergeCalls fp2 (snd b) fp2_spliced of
             None \<Rightarrow> False
           | Some G' \<Rightarrow>
              (case buildCallGraph fp2_env fp2 G' (snd b) of
                 None \<Rightarrow> False
               | Some b' \<Rightarrow>
                   cgLookup (snd b) 0 = [] \<and> cgLookup (snd b') 0 = [''foo'']
                   \<and> cgLookup (snd b) 1 = [''call''] \<and> cgLookup (snd b') 1 = [''call''])))"
proof -
  have c: "(case buildCallGraph fp2_env fp2 fp2_spliced Map.empty of
         None \<Rightarrow> False
       | Some b \<Rightarrow>
          (case mergeCalls fp2 (snd b) fp2_spliced of
             None \<Rightarrow> False
           | Some G' \<Rightarrow>
              (case buildCallGraph fp2_env fp2 G' (snd b) of
                 None \<Rightarrow> False
               | Some b' \<Rightarrow>
                   cgLookup (snd b) 0 = [] \<and> cgLookup (snd b') 0 = [''foo'']
                   \<and> cgLookup (snd b) 1 = [''call''] \<and> cgLookup (snd b') 1 = [''call''])))"
    by code_simp
  show ?thesis
    using C2_callee_sets_monotone[OF fp2_spliced_wf, of fp2_env fp2 Map.empty] fp2_spliced_wf c
    by simp
qed

text \<open>The hypothesis of C3 holds on the spliced graph of fp2.ll; the loop ends with the
  callee sets \<open>foo\<close> and \<open>call\<close>.\<close>

theorem C3_fixpoint_terminates_witness:
  "wfGraph fp2_spliced
   \<and> (\<exists>G' CG'. steensLoop fp2_env fp2 (fp2_spliced, Map.empty) = Some (G', CG')
           \<and> wfGraph G' \<and> FunctionCalls G' = FunctionCalls fp2_spliced)
   \<and> (case steensLoop fp2_env fp2 (fp2_spliced, Map.empty) of
         None \<Rightarrow> False
       | Some s \<Rightarrow> cgLookup (snd s) 0 = [''foo''] \<and> cgLookup (snd s) 1 = [''call''])"
proof -
  have c: "(case steensLoop fp2_env fp2 (fp2_spliced, Map.empty) of
         None \<Rightarrow> False
       | Some s \<Rightarrow> cgLookup (snd s) 0 = [''foo''] \<and> cgLookup (snd s) 1 = [''call''])"
    by code_simp
  show ?thesis
    using C3_fixpoint_terminates[OF fp2_spliced_wf, of fp2_env fp2 Map.empty] fp2_spliced_wf c
    by simp
qed

text \<open>The hypotheses of C9 hold on fp2.ll, where the finder's assertion does not
  fail.\<close>

theorem C9_runOnModule_false_witness:
  "wfGraph (getDSGraph fp2_env ''call'') \<and> wfGraph (getDSGraph fp2_env ''main'')
   \<and> wfGraph (getDSGraph fp2_env ''foo'')
   \<and> ResultGraph steens_init = None
   \<and> (\<exists>G. Steens_runOnModule fp2_env fp2 steens_init =
                 Some (Inr (False, \<lparr>ResultGraph = Some G, CallGraph = Map.empty\<rparr>)))
   \<and> (\<exists>cst'. CTF_runOnModule fp2_results fp2 ctf_init = Inr (False, cst'))"
proof -
  have i: "ResultGraph steens_init = None" by (simp add: steens_init_def)
  have l: "wfGraph (getDSGraph fp2_env ''call'')" "wfGraph (getDSGraph fp2_env ''main'')"
    "wfGraph (getDSGraph fp2_env ''foo'')"
    using fp2_local_wf by (simp_all add: fp2_def)
  have e: "CTF_runOnModule fp2_results fp2 ctf_init \<noteq> Inl NoDSNode"
    by code_simp
  show ?thesis
    using C9_runOnModule_false[OF fp2_local_wf i, where T = fp2_results and cst = ctf_init] i l e
    by simp
qed

end
